theory Spec2Isabelle
  imports Main "HOL-Library.Word"
begin

unbundle bit_operations_syntax

section \<open>Common types\<close>

text \<open>
  Bytes are 8-bit words and byte slices are lists of them. A Go run-time panic is a value
  of type \<open>fault\<close>; a function that can panic returns \<open>fault + 'a\<close> with the panic on the
  left. A loop that may spin for ever returns an \<open>option\<close>, with \<open>None\<close> for "does not
  return".
\<close>

type_synonym byte = "8 word"
type_synonym bytes = "byte list"

datatype fault =
    IndexOutOfRange       \<comment> \<open>index or slice bound outside the slice\<close>
  | MakeSliceOutOfRange   \<comment> \<open>\<open>make\<close> with a negative length\<close>
  | UnsafeOutOfBounds     \<comment> \<open>an \<open>unsafe\<close> store or load that leaves the slice\<close>
  | NilDereference        \<comment> \<open>a field read through a nil pointer\<close>

section \<open>The ring buffer (async\_writer\_generic.go)\<close>

text \<open>
  Go's \<open>int\<close> is a 64-bit two's complement integer. \<open>nextPowerOf2\<close> is modelled on
  \<open>int\<close> with the wrap-around of \<open>n--\<close> and \<open>n++\<close> written out; \<open>>>\<close> on a signed
  operand is the arithmetic shift, which is \<open>drop_bit\<close> on \<open>int\<close>, and \<open>|\<close> of two
  64-bit values stays in range.
\<close>

definition wrap_int64 :: "int \<Rightarrow> int" where
  "wrap_int64 x = (x + 2 ^ 63) mod 2 ^ 64 - 2 ^ 63"

definition nextPowerOf2 :: "int \<Rightarrow> int" where
  "nextPowerOf2 n0 =
     (let n = wrap_int64 (n0 - 1);
          n = n OR drop_bit 1 n;
          n = n OR drop_bit 2 n;
          n = n OR drop_bit 4 n;
          n = n OR drop_bit 8 n;
          n = n OR drop_bit 16 n;
          n = n OR drop_bit 32 n
      in wrap_int64 (n + 1))"

text \<open>
  The struct: \<open>mask\<close>, \<open>head\<close> and \<open>tail\<close> are \<open>uint64\<close>; a slot is an atomic pointer,
  \<open>None\<close> for \<open>nil\<close>. The padding fields and the \<open>pool\<close> field are not read by \<open>Put\<close>
  or \<open>Get\<close> and are left out.
\<close>

record 'a RingBuffer =
  mask_rb :: "64 word"
  head :: "64 word"
  tail :: "64 word"
  buffer :: "'a option list"

text \<open>
  \<open>make\<close> panics on a negative length and on a length whose memory exceeds the allocation
  limit of the run time, \<open>maxAlloc\<close>: \<open>2 ^ 48\<close> bytes on the 64-bit platforms with 48 bits
  of heap address (linux/amd64 among them). A slot is a pointer of eight bytes, so a ring
  of more than \<open>2 ^ 45\<close> slots is refused. Below that limit the allocation is taken to
  succeed.
\<close>

definition maxAlloc :: int where
  "maxAlloc = 2 ^ 48"

definition NewRingBuffer :: "int \<Rightarrow> fault + 'a RingBuffer" where
  "NewRingBuffer size0 =
     (let size = nextPowerOf2 size0 in
      if size < 0 \<or> 8 * size > maxAlloc then Inl MakeSliceOutOfRange
      else Inr \<lparr>mask_rb = word_of_int (size - 1), head = 0, tail = 0,
                buffer = replicate (nat size) None\<rparr>)"

definition Put :: "'a RingBuffer \<Rightarrow> 'a option \<Rightarrow> fault + (bool \<times> 'a RingBuffer)" where
  "Put rb item =
     (let h = head rb;
          next = (h + 1) AND mask_rb rb in
      if next = tail rb then Inr (False, rb)
      else if unat h < length (buffer rb)
      then Inr (True, rb\<lparr>buffer := (buffer rb)[unat h := item], head := next\<rparr>)
      else Inl IndexOutOfRange)"

text \<open>
  \<open>Get\<close> in a sequential execution. The compare-and-swap on \<open>tail\<close> is modelled as it
  behaves with no other goroutine. The inner loop waits for the claimed slot to become
  non-nil, yielding the processor in between; with no other goroutine nothing can fill the
  slot, and the loop is the recursion of \<open>Get_wait\<close>.
\<close>

definition CompareAndSwap_tail :: "'a RingBuffer \<Rightarrow> 64 word \<Rightarrow> 64 word \<Rightarrow> bool \<times> 'a RingBuffer" where
  "CompareAndSwap_tail rb old new =
     (if tail rb = old then (True, rb\<lparr>tail := new\<rparr>) else (False, rb))"

partial_function (option) Get_wait ::
  "'a RingBuffer \<Rightarrow> 64 word \<Rightarrow> (fault + ('a \<times> 'a RingBuffer)) option" where
  "Get_wait rb t =
     (if unat t < length (buffer rb)
      then (case buffer rb ! unat t of
              Some item \<Rightarrow> Some (Inr (item, rb\<lparr>buffer := (buffer rb)[unat t := None]\<rparr>))
            | None \<Rightarrow> Get_wait rb t)
      else Some (Inl IndexOutOfRange))"

partial_function (option) Get ::
  "'a RingBuffer \<Rightarrow> (fault + (('a option \<times> bool) \<times> 'a RingBuffer)) option" where
  "Get rb =
     (let t = tail rb;
          h = head rb in
      if t = h then Some (Inr ((None, False), rb))
      else
        let next = (t + 1) AND mask_rb rb;
            cas = CompareAndSwap_tail rb t next in
        if fst cas
        then (case Get_wait (snd cas) t of
                None \<Rightarrow> None
              | Some (Inl e) \<Rightarrow> Some (Inl e)
              | Some (Inr (item, rb')) \<Rightarrow> Some (Inr ((Some item, True), rb')))
        else Get (snd cas))"

text \<open>
  The six shift-and-or lines of \<open>nextPowerOf2\<close> on their own (what they do to the
  decremented \<open>n\<close>), named for the proofs.
\<close>

definition smear :: "int \<Rightarrow> int" where
  "smear n0 = (let n = n0;
          n = n OR drop_bit 1 n;
          n = n OR drop_bit 2 n;
          n = n OR drop_bit 4 n;
          n = n OR drop_bit 8 n;
          n = n OR drop_bit 16 n;
          n = n OR drop_bit 32 n in n)"


subsection \<open>The queue a ring holds\<close>

text \<open>
  \<open>rb_holds rb q\<close>: the ring is well formed (its slot count is a power of two up to
  \<open>2 ^ 62\<close>, \<open>mask\<close> is that count minus one) and holds exactly the items \<open>q\<close>,
  oldest first: \<open>head\<close> is \<open>length q\<close> slots after \<open>tail\<close>, slot \<open>tail + d\<close> holds the
  \<open>d\<close>-th item of \<open>q\<close>, and every other slot is nil. \<open>expected_slot c t q i\<close> is what
  slot \<open>i\<close> of \<open>c\<close> then holds when \<open>tail\<close> is \<open>t\<close>.
\<close>

definition expected_slot :: "nat \<Rightarrow> nat \<Rightarrow> 'a list \<Rightarrow> nat \<Rightarrow> 'a option" where
  "expected_slot c t q i =
     (let d = (i + c - t) mod c in if d < length q then Some (q ! d) else None)"

definition rb_holds :: "'a RingBuffer \<Rightarrow> 'a list \<Rightarrow> bool" where
  "rb_holds rb q \<longleftrightarrow>
     (\<exists>k\<le>62. length (buffer rb) = 2 ^ k \<and> mask_rb rb = mask k) \<and>
     unat (tail rb) < length (buffer rb) \<and>
     length q < length (buffer rb) \<and>
     unat (head rb) = (unat (tail rb) + length q) mod length (buffer rb) \<and>
     buffer rb = map (expected_slot (length (buffer rb)) (unat (tail rb)) q) [0..<length (buffer rb)]"


subsection \<open>Sequential executions\<close>

text \<open>
  A sequential execution is a list of calls made one after the other by a single
  goroutine. An item handed to \<open>Put\<close> is a non-nil pointer. \<open>rb_run\<close> carries the ring
  and the occupancy: the number of successful \<open>Put\<close>s minus the number of successful
  \<open>Get\<close>s so far. \<open>put_all\<close> and \<open>get_n\<close> are a run of \<open>Put\<close>s and a run of \<open>Get\<close>s that
  collect what each call returned.
\<close>

datatype 'a rb_call = CallPut 'a | CallGet

fun rb_step :: "'a RingBuffer \<times> int \<Rightarrow> 'a rb_call \<Rightarrow> (fault + 'a RingBuffer \<times> int) option" where
  "rb_step (rb, occ) (CallPut x) =
     (case Put rb (Some x) of
        Inl e \<Rightarrow> Some (Inl e)
      | Inr (ok, rb') \<Rightarrow> Some (Inr (rb', if ok then occ + 1 else occ)))"
| "rb_step (rb, occ) CallGet =
     (case Get rb of
        None \<Rightarrow> None
      | Some (Inl e) \<Rightarrow> Some (Inl e)
      | Some (Inr ((item, ok), rb')) \<Rightarrow> Some (Inr (rb', if ok then occ - 1 else occ)))"

fun rb_run :: "'a RingBuffer \<times> int \<Rightarrow> 'a rb_call list \<Rightarrow> (fault + 'a RingBuffer \<times> int) option" where
  "rb_run s [] = Some (Inr s)"
| "rb_run s (c # cs) =
     (case rb_step s c of
        None \<Rightarrow> None
      | Some (Inl e) \<Rightarrow> Some (Inl e)
      | Some (Inr s') \<Rightarrow> rb_run s' cs)"

fun put_all :: "'a RingBuffer \<Rightarrow> 'a list \<Rightarrow> fault + bool list \<times> 'a RingBuffer" where
  "put_all rb [] = Inr ([], rb)"
| "put_all rb (x # xs) =
     (case Put rb (Some x) of
        Inl e \<Rightarrow> Inl e
      | Inr (ok, rb') \<Rightarrow>
          (case put_all rb' xs of
             Inl e \<Rightarrow> Inl e
           | Inr (oks, rb'') \<Rightarrow> Inr (ok # oks, rb'')))"

fun get_n :: "'a RingBuffer \<Rightarrow> nat \<Rightarrow> (fault + ('a option \<times> bool) list \<times> 'a RingBuffer) option" where
  "get_n rb 0 = Some (Inr ([], rb))"
| "get_n rb (Suc n) =
     (case Get rb of
        None \<Rightarrow> None
      | Some (Inl e) \<Rightarrow> Some (Inl e)
      | Some (Inr (r, rb')) \<Rightarrow>
          (case get_n rb' n of
             None \<Rightarrow> None
           | Some (Inl e) \<Rightarrow> Some (Inl e)
           | Some (Inr (rs, rb'')) \<Rightarrow> Some (Inr (r # rs, rb''))))"


section \<open>The object pool and the asynchronous writer\<close>

text \<open>
  \<open>Pool[T]\<close> wraps the standard library's \<open>sync.Pool\<close>. It is modelled as a free list:
  \<open>Get\<close> takes the object put last, or a new one when the list is empty; \<open>Put\<close> adds one.
  (The run time may also drop pooled objects; then \<open>Get\<close> allocates, as it does on an
  empty list.)
\<close>


definition Pool_Get :: "'a \<Rightarrow> 'a list \<Rightarrow> 'a \<times> 'a list" where
  "Pool_Get new p = (case p of [] \<Rightarrow> (new, []) | v # vs \<Rightarrow> (v, vs))"

definition Pool_Put :: "'a list \<Rightarrow> 'a \<Rightarrow> 'a list" where
  "Pool_Put p v = v # p"

text \<open>
  A log entry is its \<open>data\<close> slice: the bytes and the capacity of the backing array. An
  entry is owned by the pool, by one ring slot or by the running call, never by two of
  them, so entries are values here.
\<close>

record LogEntry =
  data :: bytes
  data_cap :: nat

datatype io_error = ErrClosedPipe

text \<open>
  The writer in a sequential execution: its ring, what the sink has received so far (one
  element per \<open>writer.Write\<close> call, oldest first; the sink's result is discarded by the
  code), the \<open>done\<close> flag and the entry pool. The worker goroutines only take entries out
  of the ring and are not part of a call of \<open>Write\<close>.
\<close>

record AsyncWriterV2 =
  aw_rb :: "LogEntry RingBuffer"
  aw_writer :: "bytes list"
  aw_done :: bool
  aw_pool :: "LogEntry list"

definition NewAsyncWriterV2 :: "int \<Rightarrow> fault + AsyncWriterV2" where
  "NewAsyncWriterV2 bufferSize =
     (case NewRingBuffer bufferSize of
        Inl e \<Rightarrow> Inl e
      | Inr r \<Rightarrow> Inr \<lparr>aw_rb = r, aw_writer = [], aw_done = False, aw_pool = []\<rparr>)"

definition Close :: "AsyncWriterV2 \<Rightarrow> AsyncWriterV2" where
  "Close aw = aw\<lparr>aw_done := True\<rparr>"

text \<open>
  Lines 127 to 132 of \<open>Write\<close>: the entry's slice is reallocated when too small, else
  resliced, and the caller's bytes are copied into it.
\<close>

definition copy_into_entry :: "LogEntry \<Rightarrow> bytes \<Rightarrow> LogEntry" where
  "copy_into_entry entry b =
     (if data_cap entry < length b
      then \<lparr>data = b, data_cap = length b\<rparr>
      else \<lparr>data = b, data_cap = data_cap entry\<rparr>)"

text \<open>
  The loop \<open>for !aw.rb.Put(entry)\<close> of \<open>Write\<close>: the first thing each round does is the
  \<open>Put\<close>; \<open>done\<close> is read only after a \<open>Put\<close> that failed.
\<close>

partial_function (option) Write_retry ::
  "AsyncWriterV2 \<Rightarrow> LogEntry \<Rightarrow> int \<Rightarrow> (fault + ((int \<times> io_error option) \<times> AsyncWriterV2)) option" where
  "Write_retry aw entry n =
     (case Put (aw_rb aw) (Some entry) of
        Inl e \<Rightarrow> Some (Inl e)
      | Inr (ok, r) \<Rightarrow>
          if ok then Some (Inr ((n, None), aw\<lparr>aw_rb := r\<rparr>))
          else if aw_done aw
          then Some (Inr ((0, Some ErrClosedPipe), aw\<lparr>aw_pool := Pool_Put (aw_pool aw) entry\<rparr>))
          else
            (case Get (aw_rb aw) of
               None \<Rightarrow> None
             | Some (Inl e) \<Rightarrow> Some (Inl e)
             | Some (Inr ((consumed, got), r')) \<Rightarrow>
                 if got
                 then (case consumed of
                         None \<Rightarrow> Some (Inl NilDereference)
                       | Some c \<Rightarrow>
                           Write_retry
                             (aw\<lparr>aw_rb := r',
                                 aw_writer := aw_writer aw @ [data c],
                                 aw_pool := Pool_Put (aw_pool aw) (c\<lparr>data := []\<rparr>)\<rparr>)
                             entry n)
                 else Write_retry (aw\<lparr>aw_rb := r'\<rparr>) entry n))"

definition Write :: "AsyncWriterV2 \<Rightarrow> bytes \<Rightarrow> (fault + ((int \<times> io_error option) \<times> AsyncWriterV2)) option" where
  "Write aw b =
     (let (entry, p) = Pool_Get \<lparr>data = [], data_cap = 0\<rparr> (aw_pool aw);
          entry = copy_into_entry entry b
      in Write_retry (aw\<lparr>aw_pool := p\<rparr>) entry (int (length b)))"



section \<open>The buffer pool\<close>

text \<open>
  \<open>len64tab\<close> and \<open>leadingZeros64\<close> as written: eight table look-ups, one per 6-bit
  group of bits 16 to 63 of the argument, added up. Every index is below 64 (a 6-bit
  value), so no look-up leaves the table.
\<close>


definition len64tab :: "int list" where
  "len64tab =
     [64, 63, 62, 62, 61, 61, 61, 61, 60, 60, 60, 60, 60, 60, 60, 60,
      59, 59, 59, 59, 59, 59, 59, 59, 59, 59, 59, 59, 59, 59, 59, 59,
      58, 58, 58, 58, 58, 58, 58, 58, 58, 58, 58, 58, 58, 58, 58, 58,
      58, 58, 58, 58, 58, 58, 58, 58, 58, 58, 58, 58, 58, 58, 58, 58]"

definition leadingZeros64 :: "64 word \<Rightarrow> int" where
  "leadingZeros64 x =
     len64tab ! unat (drop_bit 58 x) +
     len64tab ! unat (drop_bit 52 x AND 0x3f) +
     len64tab ! unat (drop_bit 46 x AND 0x3f) +
     len64tab ! unat (drop_bit 40 x AND 0x3f) +
     len64tab ! unat (drop_bit 34 x AND 0x3f) +
     len64tab ! unat (drop_bit 28 x AND 0x3f) +
     len64tab ! unat (drop_bit 22 x AND 0x3f) +
     len64tab ! unat (drop_bit 16 x AND 0x3f)"

text \<open>
  A pooled buffer is a pointer to a slice. \<open>buf_id\<close> is the identity of the pointed-to
  slice object and \<open>arr_id\<close> that of its backing array; \<open>backing\<close> is the array's content
  and its length the slice's capacity. The pool's state is its 20 free lists and a counter
  of the identities handed out so far; each allocation takes the next one. \<open>make\<close> returns
  zeroed memory, and memory is unbounded.
\<close>

record ByteBuf =
  buf_id :: nat
  arr_id :: nat
  buf_len :: nat
  backing :: bytes

record BufferPool =
  pools :: "ByteBuf list list"
  fresh :: nat

definition NewBufferPool :: BufferPool where
  "NewBufferPool = \<lparr>pools = replicate 20 [], fresh = 0\<rparr>"

text \<open>
  Lines 59 to 68 of \<open>Get\<close>: the size class index computed from the requested size,
  after the clamp to 0 and before the test against the number of pools.
\<close>

definition size_class_index :: "int \<Rightarrow> int" where
  "size_class_index size0 =
     (let size = (if size0 \<le> 0 then 64 else size0);
          bits = 64 - leadingZeros64 (word_of_int (size - 1));
          idx = bits - 6
      in if idx < 0 then 0 else idx)"

text \<open>
  \<open>Get\<close> and \<open>Put\<close>. The class pool's \<open>New\<close> allocates a slice object and an array of the
  class size. \<open>Put\<close> also returns the buffer, whose length it has reset.
\<close>

definition BufferPool_Get :: "BufferPool \<Rightarrow> int \<Rightarrow> ByteBuf \<times> BufferPool" where
  "BufferPool_Get bp size0 =
     (let size = (if size0 \<le> 0 then 64 else size0);
          idx = size_class_index size0
      in if idx \<ge> int (length (pools bp))
         then (\<lparr>buf_id = fresh bp, arr_id = fresh bp + 1, buf_len = 0,
                 backing = replicate (nat size) 0\<rparr>,
               bp\<lparr>fresh := fresh bp + 2\<rparr>)
         else
           let (buf, bp1) =
                 (case pools bp ! nat idx of
                    [] \<Rightarrow>
                      (\<lparr>buf_id = fresh bp, arr_id = fresh bp + 1, buf_len = 0,
                         backing = replicate (2 ^ (nat idx + 6)) 0\<rparr>,
                       bp\<lparr>fresh := fresh bp + 2\<rparr>)
                  | b # bs \<Rightarrow> (b, bp\<lparr>pools := (pools bp)[nat idx := bs]\<rparr>))
           in if int (length (backing buf)) < size
              then (buf\<lparr>arr_id := fresh bp1, buf_len := 0, backing := replicate (nat size) 0\<rparr>,
                    bp1\<lparr>fresh := fresh bp1 + 1\<rparr>)
              else (buf, bp1))"

definition BufferPool_Put :: "BufferPool \<Rightarrow> ByteBuf \<Rightarrow> ByteBuf \<times> BufferPool" where
  "BufferPool_Put bp buf0 =
     (let buf = buf0\<lparr>buf_len := 0\<rparr>;
          cap = int (length (backing buf))
      in if cap = 0 then (buf, bp)
         else
           let bits = 64 - leadingZeros64 (word_of_int (cap - 1));
               idx = bits - 6
           in if idx \<ge> 0 \<and> idx < int (length (pools bp)) \<and> cap = 2 ^ (nat idx + 6)
              then (buf, bp\<lparr>pools := (pools bp)[nat idx := buf # pools bp ! nat idx]\<rparr>)
              else (buf, bp))"

section \<open>Byte slices\<close>

text \<open>
  \<open>bind_f\<close> runs a step and passes its result on; a panic ends the function. Go's \<open>int\<close>
  positions are \<open>int\<close>; as no slice here comes near \<open>2 ^ 63\<close> bytes, their additions do
  not wrap. \<open>byte_at\<close> is the checked index \<open>b[i]\<close>, \<open>slice\<close> the checked slice \<open>b[i:j]\<close>,
  and \<open>bytes_at b i n\<close> the \<open>n\<close> checked indexes \<open>b[i]\<close> to \<open>b[i+n-1]\<close> of one expression.
  \<open>unsafe_load b i n\<close> is a read of \<open>n\<close> bytes through \<open>unsafe.Pointer(&b[i])\<close>: taking the
  address is checked, the read itself is not, and a read that leaves the slice is a fault
  of its own.
\<close>

definition bind_f :: "fault + 'a \<Rightarrow> ('a \<Rightarrow> fault + 'b) \<Rightarrow> fault + 'b" where
  "bind_f m k = (case m of Inl e \<Rightarrow> Inl e | Inr x \<Rightarrow> k x)"

definition byte_at :: "bytes \<Rightarrow> int \<Rightarrow> fault + byte" where
  "byte_at b i = (if 0 \<le> i \<and> i < int (length b) then Inr (b ! nat i) else Inl IndexOutOfRange)"

definition slice :: "bytes \<Rightarrow> int \<Rightarrow> int \<Rightarrow> fault + bytes" where
  "slice b i j =
     (if 0 \<le> i \<and> i \<le> j \<and> j \<le> int (length b)
      then Inr (take (nat (j - i)) (drop (nat i) b))
      else Inl IndexOutOfRange)"

definition bytes_at :: "bytes \<Rightarrow> int \<Rightarrow> nat \<Rightarrow> fault + bytes" where
  "bytes_at b i n =
     (if 0 \<le> i \<and> i + int n \<le> int (length b)
      then Inr (take n (drop (nat i) b))
      else Inl IndexOutOfRange)"

definition unsafe_load :: "bytes \<Rightarrow> int \<Rightarrow> nat \<Rightarrow> fault + bytes" where
  "unsafe_load b i n =
     (if \<not> (0 \<le> i \<and> i < int (length b)) then Inl IndexOutOfRange
      else if i + int n \<le> int (length b) then Inr (take n (drop (nat i) b))
      else Inl UnsafeOutOfBounds)"

text \<open>
  Byte order. The header is written and read through \<open>unsafe\<close> pointers in the byte order
  of the machine, little-endian on the platforms the package is built for (the release
  notes show the magic number of a binary record as the text GOLZ). \<open>le_word\<close> and
  \<open>le_bytes\<close> are the value of a byte sequence and the bytes of a value in that order;
  \<open>be_word\<close> and \<open>be_bytes\<close> are the big-endian ones, the shifts and ors the field codec
  writes out byte by byte (\<open>be_word_8_literal\<close> and \<open>be_bytes_8_literal\<close> below).
\<close>

definition le_word :: "bytes \<Rightarrow> 'a::len word" where
  "le_word bs = foldr (\<lambda>x w. push_bit 8 w OR ucast x) bs 0"

definition be_word :: "bytes \<Rightarrow> 'a::len word" where
  "be_word bs = foldl (\<lambda>w x. push_bit 8 w OR ucast x) 0 bs"

definition le_bytes :: "nat \<Rightarrow> 'a::len word \<Rightarrow> bytes" where
  "le_bytes n w = map (\<lambda>i. ucast (drop_bit (8 * i) w)) [0..<n]"

definition be_bytes :: "nat \<Rightarrow> 'a::len word \<Rightarrow> bytes" where
  "be_bytes n w = rev (le_bytes n w)"

definition ascii :: "string \<Rightarrow> bytes" where
  "ascii s = map (\<lambda>c. of_nat (of_char c)) s"

definition MagicHeader :: "32 word" where
  "MagicHeader = 0x5A4C4F47"

definition Version :: byte where
  "Version = 1"


section \<open>The terminal writer (the decoder)\<close>

text \<open>
  The five errors \<open>Write\<close> returns: "invalid log entry: too short", "invalid magic
  header", "invalid log entry: cannot determine format", "invalid log entry: message
  truncated" and "invalid log format: too short".
\<close>

datatype decode_error =
    EntryTooShort
  | InvalidMagicHeader
  | CannotDetermineFormat
  | MessageTruncated
  | FormatTooShort

text \<open>
  \<open>FieldType\<close> is a \<open>uint8\<close> with seven named values; the decoder reads it from an
  arbitrary byte.
\<close>

definition FieldTypeInt :: byte where "FieldTypeInt = 0"
definition FieldTypeUint :: byte where "FieldTypeUint = 1"
definition FieldTypeFloat32 :: byte where "FieldTypeFloat32 = 2"
definition FieldTypeFloat64 :: byte where "FieldTypeFloat64 = 3"
definition FieldTypeString :: byte where "FieldTypeString = 4"
definition FieldTypeBool :: byte where "FieldTypeBool = 5"
definition FieldTypeBytes :: byte where "FieldTypeBytes = 6"

definition termMsgJust :: int where
  "termMsgJust = 40"

definition spaces :: bytes where
  "spaces = replicate 40 0x20"

definition levelStrings :: "bytes list" where
  "levelStrings = map ascii [''DEBUG'', ''INFO '', ''WARN '', ''ERROR'', ''FATAL'', ''UNKN '']"

definition levelColors :: "bytes list" where
  "levelColors =
     [0x1b # ascii ''[36m'', 0x1b # ascii ''[32m'', 0x1b # ascii ''[33m'',
      0x1b # ascii ''[31m'', 0x1b # ascii ''[35m'', []]"

definition colorResetBytes :: bytes where
  "colorResetBytes = 0x1b # ascii ''[0m''"

text \<open>
  What the decoder calls and this theory does not model: the standard library's time
  formatting (it depends on the local time zone) and the two float formatters (floating
  point). Each is a function from the decoded bits to the text it appends. The writer
  itself is its colour switch and the lines its output has received.
\<close>

record external =
  format_time :: "64 word \<Rightarrow> bytes"
  format_float32 :: "32 word \<Rightarrow> bytes"
  format_float64 :: "64 word \<Rightarrow> bytes"

record TerminalWriter =
  useColor :: bool
  out :: "bytes list"

text \<open>
  \<open>appendUint\<close>: the loop fills a 20-byte array from the right, one decimal digit per
  round; \<open>appendUint_loop\<close> carries the digits written so far. \<open>appendInt\<close> negates a
  negative value (the least value wraps to itself) and prints its bits as unsigned.
\<close>

function appendUint_loop :: "64 word \<Rightarrow> bytes \<Rightarrow> bytes" where
  "appendUint_loop v digits =
     (if 0 < v then appendUint_loop (v div 10) ((ucast (v mod 10) + 0x30) # digits) else digits)"
  by pat_completeness auto
termination
proof (relation "measure (\<lambda>(v, digits). unat v)")
  show "wf (measure (\<lambda>(v :: 64 word, digits :: bytes). unat v))" by simp
next
  fix v :: "64 word" and digits :: bytes
  assume "0 < v"
  then have "0 < unat v" by (simp add: word_less_nat_alt)
  then have "unat v div 10 < unat v" by simp
  then show "((v div 10, (ucast (v mod 10) + 0x30) # digits), (v, digits))
      \<in> measure (\<lambda>(v, digits). unat v)"
    by (simp add: unat_div)
qed

declare appendUint_loop.simps [simp del]

definition appendUint :: "bytes \<Rightarrow> 64 word \<Rightarrow> bytes" where
  "appendUint buf v = (if v = 0 then buf @ ascii ''0'' else buf @ appendUint_loop v [])"

definition appendInt :: "bytes \<Rightarrow> 64 word \<Rightarrow> bytes" where
  "appendInt buf v =
     (if sint v < 0 then appendUint (buf @ ascii ''-'') (- v) else appendUint buf v)"

definition appendFloat32 :: "external \<Rightarrow> bytes \<Rightarrow> 32 word \<Rightarrow> bytes" where
  "appendFloat32 ext buf f = buf @ format_float32 ext f"

definition appendFloat64 :: "external \<Rightarrow> bytes \<Rightarrow> 64 word \<Rightarrow> bytes" where
  "appendFloat64 ext buf f = buf @ format_float64 ext f"

definition hex :: bytes where
  "hex = ascii ''0123456789abcdef''"

definition appendHex :: "bytes \<Rightarrow> bytes \<Rightarrow> bytes" where
  "appendHex buf data_bytes =
     foldl (\<lambda>buf b. buf @ [hex ! unat (drop_bit 4 b), hex ! unat (b AND 0xf)]) buf data_bytes"

text \<open>
  \<open>escapeStringOptimized\<close>: the scan four bytes at a time, then the scan of the rest
  (skipped when the first found a byte to escape), then one of three outputs. The capacity
  reservation before the escaping loop does not change the bytes and is left out.
\<close>

definition needs_escape :: "byte \<Rightarrow> bool" where
  "needs_escape c \<longleftrightarrow> c = 0x22 \<or> c = 0x5c \<or> c = 0x0a \<or> c = 0x0d \<or> c = 0x09"

function escape_scan4 :: "bytes \<Rightarrow> int \<Rightarrow> bool \<Rightarrow> fault + (int \<times> bool \<times> bool)" where
  "escape_scan4 s i hasSpace =
     (if i + 4 \<le> int (length s)
      then
        (case byte_at s i of Inl e \<Rightarrow> Inl e | Inr c0 \<Rightarrow>
           if needs_escape c0 then Inr (i, True, hasSpace)
           else
             (case byte_at s (i + 1) of Inl e \<Rightarrow> Inl e | Inr c1 \<Rightarrow>
                if needs_escape c1 then Inr (i, True, hasSpace)
                else
                  (case byte_at s (i + 2) of Inl e \<Rightarrow> Inl e | Inr c2 \<Rightarrow>
                     if needs_escape c2 then Inr (i, True, hasSpace)
                     else
                       (case byte_at s (i + 3) of Inl e \<Rightarrow> Inl e | Inr c3 \<Rightarrow>
                          if needs_escape c3 then Inr (i, True, hasSpace)
                          else escape_scan4 s (i + 4)
                            (if c0 = 0x20 \<or> c1 = 0x20 \<or> c2 = 0x20 \<or> c3 = 0x20
                             then True else hasSpace)))))
      else Inr (i, False, hasSpace))"
  by pat_completeness auto
termination
  by (relation "measure (\<lambda>(s, i, hasSpace). nat (int (length s) - i))") auto

declare escape_scan4.simps [simp del]

function escape_scan1 :: "bytes \<Rightarrow> int \<Rightarrow> bool \<Rightarrow> fault + (bool \<times> bool)" where
  "escape_scan1 s i hasSpace =
     (if i < int (length s)
      then
        (case byte_at s i of Inl e \<Rightarrow> Inl e | Inr c \<Rightarrow>
           if needs_escape c then Inr (True, hasSpace)
           else escape_scan1 s (i + 1) (if c = 0x20 then True else hasSpace))
      else Inr (False, hasSpace))"
  by pat_completeness auto
termination
  by (relation "measure (\<lambda>(s, i, hasSpace). nat (int (length s) - i))") auto

declare escape_scan1.simps [simp del]

definition escape_byte :: "byte \<Rightarrow> bytes" where
  "escape_byte c =
     (if c = 0x5c then [0x5c, 0x5c]
      else if c = 0x22 then [0x5c, 0x22]
      else if c = 0x0a then [0x5c, 0x6e]
      else if c = 0x0d then [0x5c, 0x72]
      else if c = 0x09 then [0x5c, 0x74]
      else [c])"

definition escapeStringOptimized :: "bytes \<Rightarrow> bytes \<Rightarrow> fault + bytes" where
  "escapeStringOptimized buf s =
     (case escape_scan4 s 0 False of Inl e \<Rightarrow> Inl e | Inr (i, needsEscape4, hasSpace4) \<Rightarrow>
        (case (if \<not> needsEscape4 then escape_scan1 s i hasSpace4
               else Inr (needsEscape4, hasSpace4)) of
           Inl e \<Rightarrow> Inl e
         | Inr (needsEscape, hasSpace) \<Rightarrow>
             if \<not> needsEscape \<and> hasSpace then Inr (buf @ [0x22] @ s @ [0x22])
             else if \<not> needsEscape then Inr (buf @ s)
             else Inr (foldl (\<lambda>buf c. buf @ escape_byte c) (buf @ [0x22]) s @ [0x22])))"

text \<open>What \<open>escapeStringOptimized\<close> appends for a string, named for the proofs.\<close>

definition escaped_text :: "bytes \<Rightarrow> bytes" where
  "escaped_text s = (case escapeStringOptimized [] s of Inr r \<Rightarrow> r | Inl e \<Rightarrow> [])"


text \<open>
  \<open>decodeFieldValueBuf\<close>, case by case as in the source. It returns the output buffer and
  the next cursor; it has no error result.
\<close>

definition decodeFieldValueBuf ::
  "external \<Rightarrow> bytes \<Rightarrow> bytes \<Rightarrow> int \<Rightarrow> byte \<Rightarrow> fault + (bytes \<times> int)" where
  "decodeFieldValueBuf ext buf b pos fieldType =
     (if fieldType = FieldTypeInt then
        (if int (length b) - pos < 8 then Inr (buf @ ascii ''?'', pos + 8)
         else bind_f (bytes_at b pos 8) (\<lambda>vb.
           Inr (appendInt buf (be_word vb), pos + 8)))
      else if fieldType = FieldTypeUint \<or> fieldType = FieldTypeBool then
        (if int (length b) - pos < 8 then Inr (buf @ ascii ''?'', pos + 8)
         else bind_f (bytes_at b pos 8) (\<lambda>vb.
           let v = be_word vb :: 64 word in
           if fieldType = FieldTypeBool
           then (if v = 0 then Inr (buf @ ascii ''false'', pos + 8)
                 else Inr (buf @ ascii ''true'', pos + 8))
           else Inr (appendUint buf v, pos + 8)))
      else if fieldType = FieldTypeFloat32 then
        (if int (length b) - pos < 4 then Inr (buf @ ascii ''?'', pos + 4)
         else bind_f (bytes_at b pos 4) (\<lambda>vb.
           Inr (appendFloat32 ext buf (be_word vb), pos + 4)))
      else if fieldType = FieldTypeFloat64 then
        (if int (length b) - pos < 8 then Inr (buf @ ascii ''?'', pos + 8)
         else bind_f (bytes_at b pos 8) (\<lambda>vb.
           Inr (appendFloat64 ext buf (be_word vb), pos + 8)))
      else if fieldType = FieldTypeString then
        (if int (length b) - pos < 2 then Inr (buf @ ascii ''?'', pos + 2)
         else bind_f (bytes_at b pos 2) (\<lambda>lb.
           let slen = uint (be_word lb :: 16 word) in
           if int (length b) - pos < 2 + slen then Inr (buf @ ascii ''?'', pos + 2 + slen)
           else bind_f (slice b (pos + 2) (pos + 2 + slen)) (\<lambda>s.
             bind_f (escapeStringOptimized buf s) (\<lambda>buf.
               Inr (buf, pos + 2 + slen)))))
      else if fieldType = FieldTypeBytes then
        (if int (length b) - pos < 2 then Inr (buf @ ascii ''?'', pos + 2)
         else bind_f (bytes_at b pos 2) (\<lambda>lb.
           let blen = uint (be_word lb :: 16 word) in
           if int (length b) - pos < 2 + blen then Inr (buf @ ascii ''?'', pos + 2 + blen)
           else bind_f (slice b (pos + 2) (pos + 2 + blen)) (\<lambda>s.
             Inr (appendHex buf s, pos + 2 + blen))))
      else Inr (buf @ ascii ''?'', pos))"

text \<open>
  The field loop of \<open>Write\<close> (lines 189 to 224): \<open>n\<close> is the number of rounds left
  (\<open>fieldCount - i\<close>), \<open>i\<close> the loop counter. A \<open>break\<close> leaves the loop with the buffer
  as it is.
\<close>

fun Write_fields ::
  "external \<Rightarrow> bool \<Rightarrow> byte \<Rightarrow> bytes \<Rightarrow> nat \<Rightarrow> int \<Rightarrow> bytes \<Rightarrow> int \<Rightarrow> fault + bytes" where
  "Write_fields ext color level b 0 i buf pos = Inr buf"
| "Write_fields ext color level b (Suc n) i buf pos =
     (if pos < int (length b) then
        let buf = (if i > 0 then buf @ ascii '' '' else buf) in
        (case byte_at b pos of Inl e \<Rightarrow> Inl e | Inr kl \<Rightarrow>
           let keyLen = uint kl;
               pos = pos + 1
           in if pos + keyLen > int (length b) then Inr buf
              else
                let keyStart = pos;
                    keyEnd = pos + keyLen;
                    pos = pos + keyLen
                in if pos \<ge> int (length b) then Inr buf
                   else
                     (case byte_at b pos of Inl e \<Rightarrow> Inl e | Inr fieldType \<Rightarrow>
                        let pos = pos + 1 in
                        (case slice b keyStart keyEnd of Inl e \<Rightarrow> Inl e | Inr key \<Rightarrow>
                           let buf =
                                 (if color \<and> level < 5
                                  then buf @ levelColors ! unat level @ key @ colorResetBytes @ ascii ''=''
                                  else buf @ key @ ascii ''='')
                           in (case decodeFieldValueBuf ext buf b pos fieldType of
                                 Inl e \<Rightarrow> Inl e
                               | Inr (buf, pos) \<Rightarrow>
                                   Write_fields ext color level b n (i + 1) buf pos))))
      else Inr buf)"

text \<open>
  \<open>Write\<close> in the order of the source. \<open>Write_header\<close> is lines 90 to 136: it returns an
  error, or the level, the timestamp, the message length and the offset at which the
  message starts: 16 when the record is taken for a basic one, 23 when it is taken for a
  structured one. \<open>Write_level\<close>, \<open>Write_timestamp\<close>, \<open>Write_message\<close>, \<open>Write_padding\<close> and
  \<open>Write_field_block\<close> are lines 151 to 225, \<open>Write_line\<close> puts them together and ends the
  line, and \<open>TerminalWriter_Write\<close> hands the line to the output, whose result is taken to
  be success.
\<close>

definition Write_header ::
  "bytes \<Rightarrow> fault + (decode_error + (byte \<times> 64 word \<times> int \<times> int))" where
  "Write_header b =
     (if int (length b) < 16 then Inr (Inl EntryTooShort)
      else bind_f (unsafe_load b 0 4) (\<lambda>magic.
        if le_word magic \<noteq> MagicHeader then Inr (Inl InvalidMagicHeader)
        else bind_f (byte_at b 5) (\<lambda>level.
          if int (length b) \<ge> 16 then
            bind_f (unsafe_load b 14 2) (\<lambda>l2.
              let possibleMsgLen = uint (le_word l2 :: 16 word) in
              if possibleMsgLen > 0 \<and> possibleMsgLen \<le> 65535 \<and>
                 int (length b) \<ge> 16 + possibleMsgLen
              then bind_f (unsafe_load b 6 8) (\<lambda>t.
                     Inr (Inr (level, le_word t, possibleMsgLen, 16)))
              else if int (length b) \<ge> 23 then
                bind_f (byte_at b 22) (\<lambda>l1.
                  let possibleMsgLen = uint l1 in
                  if int (length b) \<ge> 23 + possibleMsgLen
                  then bind_f (unsafe_load b 14 8) (\<lambda>t.
                         Inr (Inr (level, le_word t, possibleMsgLen, 23)))
                  else Inr (Inl CannotDetermineFormat))
              else Inr (Inl MessageTruncated))
          else Inr (Inl FormatTooShort))))"

definition Write_level :: "bool \<Rightarrow> byte \<Rightarrow> bytes \<Rightarrow> bytes" where
  "Write_level color level buf =
     (if color \<and> level < 5
      then buf @ levelColors ! unat level @ levelStrings ! unat level @ colorResetBytes
      else if level < 5 then buf @ levelStrings ! unat level
      else buf @ levelStrings ! 5)"

definition Write_timestamp :: "external \<Rightarrow> 64 word \<Rightarrow> bytes \<Rightarrow> bytes" where
  "Write_timestamp ext timestamp buf =
     buf @ ascii ''['' @ format_time ext timestamp @ ascii ''] ''"

definition Write_message :: "bytes \<Rightarrow> int \<Rightarrow> int \<Rightarrow> bytes \<Rightarrow> fault + bytes" where
  "Write_message b msgStart msgEnd buf =
     (if msgEnd > msgStart
      then bind_f (slice b msgStart msgEnd) (\<lambda>m. Inr (buf @ m))
      else Inr buf)"

definition Write_padding :: "bytes \<Rightarrow> int \<Rightarrow> int \<Rightarrow> int \<Rightarrow> bytes \<Rightarrow> bytes" where
  "Write_padding b pos msgStart msgEnd buf =
     (if pos < int (length b) \<and> msgEnd - msgStart < termMsgJust
      then let padding = termMsgJust - (msgEnd - msgStart)
           in if padding > 0 \<and> padding \<le> int (length spaces)
              then buf @ take (nat padding) spaces else buf
      else buf)"

definition Write_field_block ::
  "external \<Rightarrow> bool \<Rightarrow> byte \<Rightarrow> bytes \<Rightarrow> int \<Rightarrow> bytes \<Rightarrow> fault + bytes" where
  "Write_field_block ext color level b pos buf =
     (if pos < int (length b)
      then bind_f (byte_at b pos) (\<lambda>fieldCount.
             Write_fields ext color level b (unat fieldCount) 0 buf (pos + 1))
      else Inr buf)"

definition Write_line :: "external \<Rightarrow> bool \<Rightarrow> bytes \<Rightarrow> fault + (decode_error + bytes)" where
  "Write_line ext color b =
     (case Write_header b of
        Inl e \<Rightarrow> Inl e
      | Inr (Inl err) \<Rightarrow> Inr (Inl err)
      | Inr (Inr (level, timestamp, msgLen, msgStart)) \<Rightarrow>
          let msgEnd = (if msgLen > 0 then msgStart + msgLen else 0);
              buf = Write_level color level [];
              buf = Write_timestamp ext timestamp buf
          in bind_f (Write_message b msgStart msgEnd buf) (\<lambda>buf.
               let pos = msgStart + msgLen;
                   buf = Write_padding b pos msgStart msgEnd buf
               in bind_f (Write_field_block ext color level b pos buf) (\<lambda>buf.
                    Inr (Inr (buf @ ascii [CHR 0x0A])))))"

definition TerminalWriter_Write ::
  "external \<Rightarrow> TerminalWriter \<Rightarrow> bytes \<Rightarrow> fault + (decode_error + (int \<times> TerminalWriter))" where
  "TerminalWriter_Write ext w b =
     (case Write_line ext (useColor w) b of
        Inl e \<Rightarrow> Inl e
      | Inr (Inl err) \<Rightarrow> Inr (Inl err)
      | Inr (Inr line) \<Rightarrow> Inr (Inr (int (length b), w\<lparr>out := out w @ [line]\<rparr>)))"

section \<open>The encoders (fields.go, the basic logger, ultimate\_zero.go)\<close>

subsection \<open>Stores into a byte slice\<close>

text \<open>
  \<open>store_at\<close> is the indexed store \<open>buf[i] = v\<close>, \<open>store_bytes\<close> a run of such stores at
  \<open>i\<close>, \<open>i+1\<close>, and so on, and \<open>copy_at buf i src\<close> is \<open>copy(buf[i:], src)\<close>: the slice
  expression panics when \<open>i\<close> is beyond the length, and \<open>copy\<close> stops at the shorter of
  the two slices. \<open>raw_store\<close> is a store of several bytes through an unsafe pointer; it
  is given a result only when the bytes lie inside the slice. \<open>unsafe_store\<close> is the same
  store through \<open>&buf[i]\<close>, whose index is checked.
\<close>

definition store_at :: "bytes \<Rightarrow> int \<Rightarrow> byte \<Rightarrow> fault + bytes" where
  "store_at buf i v =
     (if 0 \<le> i \<and> i < int (length buf) then Inr (buf[nat i := v]) else Inl IndexOutOfRange)"

fun store_bytes :: "bytes \<Rightarrow> int \<Rightarrow> bytes \<Rightarrow> fault + bytes" where
  "store_bytes buf i [] = Inr buf"
| "store_bytes buf i (v # vs) =
     (case store_at buf i v of Inl e \<Rightarrow> Inl e | Inr buf' \<Rightarrow> store_bytes buf' (i + 1) vs)"

definition copy_at :: "bytes \<Rightarrow> int \<Rightarrow> bytes \<Rightarrow> fault + bytes" where
  "copy_at buf i src =
     (if 0 \<le> i \<and> i \<le> int (length buf)
      then let n = min (length buf - nat i) (length src)
           in Inr (take (nat i) buf @ take n src @ drop (nat i + n) buf)
      else Inl IndexOutOfRange)"

definition raw_store :: "bytes \<Rightarrow> int \<Rightarrow> bytes \<Rightarrow> fault + bytes" where
  "raw_store buf i src =
     (if 0 \<le> i \<and> i + int (length src) \<le> int (length buf)
      then Inr (take (nat i) buf @ src @ drop (nat i + length src) buf)
      else Inl UnsafeOutOfBounds)"

definition unsafe_store :: "bytes \<Rightarrow> int \<Rightarrow> bytes \<Rightarrow> fault + bytes" where
  "unsafe_store buf i src =
     (if \<not> (0 \<le> i \<and> i < int (length buf)) then Inl IndexOutOfRange
      else raw_store buf i src)"

subsection \<open>Fields and their constructors\<close>

text \<open>
  A field as in fields.go. The pointer of a Bytes field is modelled by the memory it
  points to: \<open>ptr = Some mem\<close> holds the bytes readable from the pointer, \<open>None\<close> is nil.
  \<open>Bytes\<close> takes the address of \<open>val[0]\<close> and so panics on an empty slice.
\<close>

record Field =
  Key :: bytes
  Type :: byte
  num :: "64 word"
  str :: bytes
  ptr :: "bytes option"

definition Int_field :: "bytes \<Rightarrow> 64 word \<Rightarrow> Field" where
  "Int_field key val = \<lparr>Key = key, Type = FieldTypeInt, num = val, str = [], ptr = None\<rparr>"

definition Uint_field :: "bytes \<Rightarrow> 64 word \<Rightarrow> Field" where
  "Uint_field key val = \<lparr>Key = key, Type = FieldTypeUint, num = val, str = [], ptr = None\<rparr>"

definition Float32_field :: "bytes \<Rightarrow> 32 word \<Rightarrow> Field" where
  "Float32_field key val =
     \<lparr>Key = key, Type = FieldTypeFloat32, num = ucast val, str = [], ptr = None\<rparr>"

definition Float64_field :: "bytes \<Rightarrow> 64 word \<Rightarrow> Field" where
  "Float64_field key val = \<lparr>Key = key, Type = FieldTypeFloat64, num = val, str = [], ptr = None\<rparr>"

definition String_field :: "bytes \<Rightarrow> bytes \<Rightarrow> Field" where
  "String_field key val = \<lparr>Key = key, Type = FieldTypeString, num = 0, str = val, ptr = None\<rparr>"

definition Bool_field :: "bytes \<Rightarrow> bool \<Rightarrow> Field" where
  "Bool_field key val =
     \<lparr>Key = key, Type = FieldTypeBool, num = (if val then 1 else 0), str = [], ptr = None\<rparr>"

definition Bytes_field :: "bytes \<Rightarrow> bytes \<Rightarrow> fault + Field" where
  "Bytes_field key val =
     (if val = [] then Inl IndexOutOfRange
      else Inr \<lparr>Key = key, Type = FieldTypeBytes, num = of_nat (length val), str = [],
                ptr = Some val\<rparr>)"

subsection \<open>The structured encoder\<close>

text \<open>
  \<open>writeBinaryHeader\<close>: magic number, version, level, sequence number and timestamp, 22
  bytes, little-endian as on the machines the package is built for. The clock
  (\<open>nanotime()\<close>) is a parameter of the model.
\<close>

definition writeBinaryHeader :: "bytes \<Rightarrow> byte \<Rightarrow> 64 word \<Rightarrow> 64 word \<Rightarrow> fault + (int \<times> bytes)" where
  "writeBinaryHeader buf level seq nanotime =
     (if buf = [] then Inl IndexOutOfRange
      else bind_f (raw_store buf 0 (le_bytes 4 MagicHeader)) (\<lambda>buf.
           bind_f (raw_store buf 4 [Version]) (\<lambda>buf.
           bind_f (raw_store buf 5 [level]) (\<lambda>buf.
           bind_f (raw_store buf 6 (le_bytes 8 seq)) (\<lambda>buf.
           bind_f (raw_store buf 14 (le_bytes 8 nanotime)) (\<lambda>buf.
           Inr (22, buf)))))))"

text \<open>
  \<open>encodeField\<close>, in two parts: the switch on the type of the field, which writes the
  value at \<open>pos\<close>, and before it the key length, the key and the type byte. Both return
  the cursor and the buffer. A value that does not fit is left out and the cursor
  returned as it is.
\<close>

definition encodeFieldValue :: "bytes \<Rightarrow> int \<Rightarrow> Field \<Rightarrow> fault + (int \<times> bytes)" where
  "encodeFieldValue buf pos f =
     (if Type f = FieldTypeInt \<or> Type f = FieldTypeUint \<or> Type f = FieldTypeBool then
        (if int (length buf) - pos < 8 then Inr (pos, buf)
         else bind_f (store_bytes buf pos (be_bytes 8 (num f))) (\<lambda>buf. Inr (pos + 8, buf)))
      else if Type f = FieldTypeFloat32 then
        (if int (length buf) - pos < 4 then Inr (pos, buf)
         else let v = (ucast (num f) :: 32 word)
              in bind_f (store_bytes buf pos (be_bytes 4 v)) (\<lambda>buf. Inr (pos + 4, buf)))
      else if Type f = FieldTypeFloat64 then
        (if int (length buf) - pos < 8 then Inr (pos, buf)
         else bind_f (store_bytes buf pos (be_bytes 8 (num f))) (\<lambda>buf. Inr (pos + 8, buf)))
      else if Type f = FieldTypeString then
        (if int (length buf) - pos < 2 then Inr (pos, buf)
         else
           let strLen = int (length (str f));
               maxLen = int (length buf) - pos - 2;
               strLen = (if strLen > maxLen then maxLen else strLen);
               strLen = (if strLen > 65535 then 65535 else strLen)
           in bind_f (store_at buf pos (word_of_int (drop_bit 8 strLen))) (\<lambda>buf.
              bind_f (store_at buf (pos + 1) (word_of_int strLen)) (\<lambda>buf.
              let pos = pos + 2 in
              if strLen > 0
              then bind_f (slice (str f) 0 strLen) (\<lambda>s.
                   bind_f (copy_at buf pos s) (\<lambda>buf. Inr (pos + strLen, buf)))
              else Inr (pos, buf))))
      else if Type f = FieldTypeBytes then
        (if int (length buf) - pos < 2 then Inr (pos, buf)
         else
           let dataLen = sint (num f);
               maxLen = int (length buf) - pos - 2;
               dataLen = (if dataLen > maxLen then maxLen else dataLen);
               dataLen = (if dataLen > 65535 then 65535 else dataLen)
           in bind_f (store_at buf pos (word_of_int (drop_bit 8 dataLen))) (\<lambda>buf.
              bind_f (store_at buf (pos + 1) (word_of_int dataLen)) (\<lambda>buf.
              let pos = pos + 2 in
              (case ptr f of
                 Some mem \<Rightarrow>
                   if dataLen > 0
                   then (if dataLen \<le> int (length mem)
                         then bind_f (copy_at buf pos (take (nat dataLen) mem)) (\<lambda>buf.
                                Inr (pos + dataLen, buf))
                         else Inl UnsafeOutOfBounds)
                   else Inr (pos, buf)
               | None \<Rightarrow> Inr (pos, buf)))))
      else Inr (pos, buf))"

definition encodeField :: "bytes \<Rightarrow> Field \<Rightarrow> fault + (int \<times> bytes)" where
  "encodeField buf f =
     (if int (length buf) < 10 then Inr (0, buf)
      else
        let pos = 0;
            keyLen = int (length (Key f));
            keyLen = (if keyLen > 255 then 255 else keyLen)
        in if keyLen > int (length buf) - pos - 2 \<and> int (length buf) - pos - 2 < 0
           then Inr (0, buf)
           else
             let keyLen = (if keyLen > int (length buf) - pos - 2
                           then int (length buf) - pos - 2 else keyLen)
             in bind_f (store_at buf pos (word_of_int keyLen)) (\<lambda>buf.
                let pos = pos + 1 in
                bind_f (slice (Key f) 0 keyLen) (\<lambda>k.
                bind_f (copy_at buf pos k) (\<lambda>buf.
                let pos = pos + keyLen in
                bind_f (store_at buf pos (Type f)) (\<lambda>buf.
                let pos = pos + 1 in
                encodeFieldValue buf pos f)))))"

text \<open>
  The loop of \<open>formatStructuredMessage\<close> over the first \<open>fieldCount\<close> fields: it stops as
  soon as fewer than 65 bytes remain in the buffer. \<open>encodeField\<close> works on the slice
  \<open>buf[pos:]\<close>, which shares its array with \<open>buf\<close>.
\<close>

fun encodeFields :: "bytes \<Rightarrow> int \<Rightarrow> Field list \<Rightarrow> fault + (int \<times> bytes)" where
  "encodeFields buf pos [] = Inr (pos, buf)"
| "encodeFields buf pos (f # fs) =
     (if pos < int (length buf) - 64
      then (case slice buf pos (int (length buf)) of
              Inl e \<Rightarrow> Inl e
            | Inr sub \<Rightarrow>
                (case encodeField sub f of
                   Inl e \<Rightarrow> Inl e
                 | Inr (n, sub') \<Rightarrow> encodeFields (take (nat pos) buf @ sub') (pos + n) fs))
      else Inr (pos, buf))"

record StructuredLogger =
  sequence :: "64 word"

definition formatStructuredMessage ::
  "StructuredLogger \<Rightarrow> 64 word \<Rightarrow> bytes \<Rightarrow> byte \<Rightarrow> bytes \<Rightarrow> Field list \<Rightarrow>
     fault + (int \<times> bytes \<times> StructuredLogger)" where
  "formatStructuredMessage l nanotime buf level msg field_list =
     (let pos = 0;
          l' = l\<lparr>sequence := sequence l + 1\<rparr>
      in bind_f (writeBinaryHeader buf level (sequence l') nanotime) (\<lambda>(n, buf).
         let pos = pos + n;
             msgLen = int (length msg);
             msgLen = (if msgLen > 255 then 255 else msgLen)
         in bind_f (store_at buf pos (word_of_int msgLen)) (\<lambda>buf.
            let pos = pos + 1 in
            bind_f (slice msg 0 msgLen) (\<lambda>m.
            bind_f (copy_at buf pos m) (\<lambda>buf.
            let pos = pos + msgLen;
                fieldCount = int (length field_list);
                fieldCount = (if fieldCount > 255 then 255 else fieldCount)
            in bind_f (store_at buf pos (word_of_int fieldCount)) (\<lambda>buf.
               let pos = pos + 1 in
               bind_f (encodeFields buf pos (take (nat fieldCount) field_list)) (\<lambda>(pos, buf).
               Inr (pos, buf, l'))))))))"

subsection \<open>The basic logger\<close>

text \<open>
  \<open>Logger.formatMessage\<close> and \<open>Logger.log\<close>. The result of \<open>log\<close> is the byte slice handed to
  the writer, with the buffer pool after the call. There is no truncation and the length
  is stored as \<open>uint16(len(msg))\<close>.
\<close>

definition formatMessage :: "64 word \<Rightarrow> bytes \<Rightarrow> byte \<Rightarrow> bytes \<Rightarrow> fault + bytes" where
  "formatMessage nanotime buf level msg =
     bind_f (unsafe_store buf 0 (le_bytes 4 MagicHeader)) (\<lambda>buf.
     bind_f (store_at buf 4 Version) (\<lambda>buf.
     bind_f (store_at buf 5 level) (\<lambda>buf.
     bind_f (unsafe_store buf 6 (le_bytes 8 nanotime)) (\<lambda>buf.
     bind_f (unsafe_store buf 14 (le_bytes 2 (word_of_int (int (length msg)) :: 16 word))) (\<lambda>buf.
     copy_at buf 16 msg)))))"

definition Logger_log ::
  "BufferPool \<Rightarrow> 64 word \<Rightarrow> byte \<Rightarrow> bytes \<Rightarrow> fault + (bytes \<times> BufferPool)" where
  "Logger_log bp nanotime level msg =
     (let msgLen = int (length msg);
          requiredSize = 16 + msgLen
      in if requiredSize \<le> 256
         then bind_f (slice (replicate 256 0) 0 requiredSize) (\<lambda>buf.
              bind_f (formatMessage nanotime buf level msg) (\<lambda>buf.
              Inr (buf, bp)))
         else
           let (bufPtr, bp) = BufferPool_Get bp requiredSize
           in bind_f (slice (backing bufPtr) 0 requiredSize) (\<lambda>buf.
              bind_f (formatMessage nanotime buf level msg) (\<lambda>buf.
              let bufPtr = bufPtr\<lparr>backing := buf @ drop (nat requiredSize) (backing bufPtr)\<rparr>;
                  (bufPtr, bp) = BufferPool_Put bp bufPtr
              in Inr (buf, bp))))"

subsection \<open>The ultimate logger\<close>

text \<open>
  \<open>UltimateLogger.log\<close> cuts the message length at 200 and \<open>formatUltimateMessage\<close> writes
  the structured header, the length byte and the message, with no field count.
\<close>

record UltimateLogger =
  ul_sequence :: "64 word"

definition formatUltimateMessage ::
  "UltimateLogger \<Rightarrow> 64 word \<Rightarrow> bytes \<Rightarrow> byte \<Rightarrow> bytes \<Rightarrow> int \<Rightarrow>
     fault + (bytes \<times> UltimateLogger)" where
  "formatUltimateMessage l nanotime buf level msg msgLen =
     (if buf = [] then Inl IndexOutOfRange
      else
        bind_f (raw_store buf 0 (le_bytes 4 MagicHeader)) (\<lambda>buf.
        bind_f (raw_store buf 4 [Version]) (\<lambda>buf.
        bind_f (raw_store buf 5 [level]) (\<lambda>buf.
        let l' = l\<lparr>ul_sequence := ul_sequence l + 1\<rparr> in
        bind_f (raw_store buf 6 (le_bytes 8 (ul_sequence l'))) (\<lambda>buf.
        bind_f (raw_store buf 14 (le_bytes 8 nanotime)) (\<lambda>buf.
        bind_f (raw_store buf 22 [word_of_int msgLen]) (\<lambda>buf.
        if msgLen > 0
        then bind_f (slice msg 0 msgLen) (\<lambda>m.
             bind_f (copy_at buf 23 m) (\<lambda>buf. Inr (buf, l')))
        else Inr (buf, l'))))))))"

definition UltimateLogger_log ::
  "UltimateLogger \<Rightarrow> BufferPool \<Rightarrow> 64 word \<Rightarrow> byte \<Rightarrow> bytes \<Rightarrow>
     fault + (bytes \<times> UltimateLogger \<times> BufferPool)" where
  "UltimateLogger_log l bp nanotime level msg =
     (let msgLen = int (length msg);
          msgLen = (if msgLen > 200 then 200 else msgLen);
          requiredSize = 23 + msgLen
      in if requiredSize \<le> 128
         then bind_f (slice (replicate 128 0) 0 requiredSize) (\<lambda>buf.
              bind_f (formatUltimateMessage l nanotime buf level msg msgLen) (\<lambda>(buf, l).
              Inr (buf, l, bp)))
         else
           let (bufPtr, bp) = BufferPool_Get bp requiredSize
           in bind_f (slice (backing bufPtr) 0 requiredSize) (\<lambda>buf.
              bind_f (formatUltimateMessage l nanotime buf level msg msgLen) (\<lambda>(buf, l).
              let bufPtr = bufPtr\<lparr>backing := buf @ drop (nat requiredSize) (backing bufPtr)\<rparr>;
                  (bufPtr, bp) = BufferPool_Put bp bufPtr
              in Inr (buf, l, bp))))"

subsection \<open>The structured logger\<close>

text \<open>
  \<open>StructuredLogger.logFields\<close>: a buffer of 512 bytes on the stack when the estimate
  allows it, a pooled buffer otherwise. The result is the slice \<open>buf[:n]\<close> handed to the
  writer, with the logger and the pool after the call.
\<close>

definition logFields ::
  "StructuredLogger \<Rightarrow> BufferPool \<Rightarrow> 64 word \<Rightarrow> byte \<Rightarrow> bytes \<Rightarrow> Field list \<Rightarrow>
     fault + (bytes \<times> StructuredLogger \<times> BufferPool)" where
  "logFields l bp nanotime level msg field_list =
     (let msgLen = int (length msg);
          msgLen = (if msgLen > 255 then 255 else msgLen);
          estimatedSize = foldl (\<lambda>e f. e + (2 + int (length (Key f)) + 16)) (24 + msgLen) field_list
      in if estimatedSize \<le> 512
         then bind_f (formatStructuredMessage l nanotime (replicate 512 0) level msg field_list)
                (\<lambda>(n, stackBuf, l).
              bind_f (slice stackBuf 0 n) (\<lambda>written. Inr (written, l, bp)))
         else
           let (bufPtr, bp) = BufferPool_Get bp (estimatedSize + 256);
               buf = backing bufPtr;
               buf = (if int (length buf) < estimatedSize
                      then replicate (nat estimatedSize) 0 else buf)
           in bind_f (formatStructuredMessage l nanotime buf level msg field_list)
                (\<lambda>(n, buf, l).
              bind_f (slice buf 0 n) (\<lambda>written.
              let bufPtr = bufPtr\<lparr>buf_len := 0, backing := buf\<rparr>;
                  (bufPtr, bp) = BufferPool_Put bp bufPtr
              in Inr (written, l, bp))))"

subsection \<open>The bytes of a record\<close>

text \<open>
  What the encoders are shown to write. \<open>overwrite buf p src\<close> is \<open>buf\<close> with \<open>src\<close> stored at
  offset \<open>p\<close>. \<open>structured_header\<close> and \<open>basic_header\<close> are the two headers, \<open>enc_field L f\<close>
  the bytes \<open>encodeField\<close> writes for \<open>f\<close> into a slice of \<open>L\<close> bytes, \<open>enc_fields L pos fs\<close> the
  bytes the field loop writes from offset \<open>pos\<close> of a buffer of \<open>L\<close> bytes, and
  \<open>wire_structured\<close> and \<open>wire_ultimate\<close> the whole records. \<open>field_ok\<close> says that the length
  recorded in a Bytes field does not exceed the memory behind its pointer, as for every
  field built by \<open>Bytes\<close>.
\<close>

definition overwrite :: "bytes \<Rightarrow> nat \<Rightarrow> bytes \<Rightarrow> bytes" where
  "overwrite buf p src = take p buf @ src @ drop (p + length src) buf"

definition structured_header :: "byte \<Rightarrow> 64 word \<Rightarrow> 64 word \<Rightarrow> bytes" where
  "structured_header level seq nanotime =
     le_bytes 4 MagicHeader @ [Version] @ [level] @ le_bytes 8 seq @ le_bytes 8 nanotime"

definition basic_header :: "byte \<Rightarrow> 64 word \<Rightarrow> 16 word \<Rightarrow> bytes" where
  "basic_header level nanotime msgLen =
     le_bytes 4 MagicHeader @ [Version] @ [level] @ le_bytes 8 nanotime @ le_bytes 2 msgLen"

definition field_ok :: "Field \<Rightarrow> bool" where
  "field_ok f \<longleftrightarrow>
     (case ptr f of None \<Rightarrow> True | Some mem \<Rightarrow> sint (num f) \<le> int (length mem))"

definition enc_value :: "int \<Rightarrow> int \<Rightarrow> Field \<Rightarrow> bytes" where
  "enc_value L pos f =
     (if Type f = FieldTypeInt \<or> Type f = FieldTypeUint \<or> Type f = FieldTypeBool \<or>
         Type f = FieldTypeFloat64
      then (if L - pos < 8 then [] else be_bytes 8 (num f))
      else if Type f = FieldTypeFloat32
      then (if L - pos < 4 then [] else be_bytes 4 (ucast (num f) :: 32 word))
      else if Type f = FieldTypeString
      then (if L - pos < 2 then []
            else let n = min (min (int (length (str f))) (L - pos - 2)) 65535
                 in [word_of_int (drop_bit 8 n), word_of_int n] @ take (nat n) (str f))
      else if Type f = FieldTypeBytes
      then (if L - pos < 2 then []
            else let n = min (min (sint (num f)) (L - pos - 2)) 65535
                 in [word_of_int (drop_bit 8 n), word_of_int n] @
                    (case ptr f of None \<Rightarrow> [] | Some mem \<Rightarrow> take (nat n) mem))
      else [])"

definition enc_field :: "int \<Rightarrow> Field \<Rightarrow> bytes" where
  "enc_field L f =
     (if L < 10 then []
      else let keyLen = min (min (int (length (Key f))) 255) (L - 2)
           in [word_of_int keyLen] @ take (nat keyLen) (Key f) @ [Type f] @
              enc_value L (2 + keyLen) f)"

fun enc_fields :: "int \<Rightarrow> int \<Rightarrow> Field list \<Rightarrow> bytes" where
  "enc_fields L pos [] = []"
| "enc_fields L pos (f # fs) =
     (if pos < L - 64
      then enc_field (L - pos) f @ enc_fields L (pos + int (length (enc_field (L - pos) f))) fs
      else [])"

definition wire_structured ::
  "int \<Rightarrow> byte \<Rightarrow> 64 word \<Rightarrow> 64 word \<Rightarrow> bytes \<Rightarrow> Field list \<Rightarrow> bytes" where
  "wire_structured L level seq nanotime msg fs =
     structured_header level seq nanotime @
     [word_of_int (min (int (length msg)) 255)] @ take 255 msg @
     [word_of_int (min (int (length fs)) 255)] @
     enc_fields L (24 + min (int (length msg)) 255) (take 255 fs)"

definition wire_ultimate :: "byte \<Rightarrow> 64 word \<Rightarrow> 64 word \<Rightarrow> bytes \<Rightarrow> bytes" where
  "wire_ultimate level seq nanotime msg =
     structured_header level seq nanotime @
     [word_of_int (min (int (length msg)) 200)] @ take 200 msg"


section \<open>The round trip of the structured format\<close>

subsection \<open>What the decoder reads\<close>

text \<open>
  \<open>TerminalWriter.Write\<close> parses and prints in one pass. To say what it recovers from a
  record, its parsing is written out on its own: \<open>parse_value\<close> is \<open>decodeFieldValueBuf\<close>,
  \<open>parse_fields\<close> the field loop and \<open>Decode\<close> the body of \<open>Write\<close>, each with the same tests
  and the same indexing in the same order, returning the values read where the source
  appends their text. A value is one of the seven kinds the decoder tells apart, or
  \<open>DMissing\<close> where the source prints a question mark. \<open>parse_fields\<close> also tells whether
  the loop was left by one of its two \<open>break\<close>s after the separator was written. The
  decoded record keeps the level, the timestamp, the message, whether a field count byte
  was present, and the fields with their keys and type bytes.
\<close>

datatype dvalue =
    DInt "64 word"
  | DUint "64 word"
  | DBool bool
  | DFloat32 "32 word"
  | DFloat64 "64 word"
  | DString bytes
  | DBytes bytes
  | DMissing

definition parse_value :: "bytes \<Rightarrow> int \<Rightarrow> byte \<Rightarrow> fault + (dvalue \<times> int)" where
  "parse_value b pos fieldType =
     (if fieldType = FieldTypeInt then
        (if int (length b) - pos < 8 then Inr (DMissing, pos + 8)
         else bind_f (bytes_at b pos 8) (\<lambda>vb. Inr (DInt (be_word vb), pos + 8)))
      else if fieldType = FieldTypeUint \<or> fieldType = FieldTypeBool then
        (if int (length b) - pos < 8 then Inr (DMissing, pos + 8)
         else bind_f (bytes_at b pos 8) (\<lambda>vb.
           let v = be_word vb :: 64 word in
           if fieldType = FieldTypeBool
           then (if v = 0 then Inr (DBool False, pos + 8) else Inr (DBool True, pos + 8))
           else Inr (DUint v, pos + 8)))
      else if fieldType = FieldTypeFloat32 then
        (if int (length b) - pos < 4 then Inr (DMissing, pos + 4)
         else bind_f (bytes_at b pos 4) (\<lambda>vb. Inr (DFloat32 (be_word vb), pos + 4)))
      else if fieldType = FieldTypeFloat64 then
        (if int (length b) - pos < 8 then Inr (DMissing, pos + 8)
         else bind_f (bytes_at b pos 8) (\<lambda>vb. Inr (DFloat64 (be_word vb), pos + 8)))
      else if fieldType = FieldTypeString then
        (if int (length b) - pos < 2 then Inr (DMissing, pos + 2)
         else bind_f (bytes_at b pos 2) (\<lambda>lb.
           let slen = uint (be_word lb :: 16 word) in
           if int (length b) - pos < 2 + slen then Inr (DMissing, pos + 2 + slen)
           else bind_f (slice b (pos + 2) (pos + 2 + slen)) (\<lambda>s.
             Inr (DString s, pos + 2 + slen))))
      else if fieldType = FieldTypeBytes then
        (if int (length b) - pos < 2 then Inr (DMissing, pos + 2)
         else bind_f (bytes_at b pos 2) (\<lambda>lb.
           let blen = uint (be_word lb :: 16 word) in
           if int (length b) - pos < 2 + blen then Inr (DMissing, pos + 2 + blen)
           else bind_f (slice b (pos + 2) (pos + 2 + blen)) (\<lambda>s.
             Inr (DBytes s, pos + 2 + blen))))
      else Inr (DMissing, pos))"

fun parse_fields ::
  "bytes \<Rightarrow> nat \<Rightarrow> int \<Rightarrow> fault + ((bytes \<times> byte \<times> dvalue) list \<times> bool)" where
  "parse_fields b 0 pos = Inr ([], False)"
| "parse_fields b (Suc n) pos =
     (if pos < int (length b) then
        (case byte_at b pos of Inl e \<Rightarrow> Inl e | Inr kl \<Rightarrow>
           let keyLen = uint kl;
               pos = pos + 1
           in if pos + keyLen > int (length b) then Inr ([], True)
              else
                let keyStart = pos;
                    keyEnd = pos + keyLen;
                    pos = pos + keyLen
                in if pos \<ge> int (length b) then Inr ([], True)
                   else
                     (case byte_at b pos of Inl e \<Rightarrow> Inl e | Inr fieldType \<Rightarrow>
                        let pos = pos + 1 in
                        (case slice b keyStart keyEnd of Inl e \<Rightarrow> Inl e | Inr key \<Rightarrow>
                           (case parse_value b pos fieldType of
                              Inl e \<Rightarrow> Inl e
                            | Inr (v, pos) \<Rightarrow>
                                (case parse_fields b n pos of
                                   Inl e \<Rightarrow> Inl e
                                 | Inr (rest, stopped) \<Rightarrow>
                                     Inr ((key, fieldType, v) # rest, stopped))))))
      else Inr ([], False))"

record decoded =
  d_level :: byte
  d_timestamp :: "64 word"
  d_message :: bytes
  d_block :: bool
  d_fields :: "(bytes \<times> byte \<times> dvalue) list"
  d_stopped :: bool

definition Decode :: "bytes \<Rightarrow> fault + (decode_error + decoded)" where
  "Decode b =
     (case Write_header b of
        Inl e \<Rightarrow> Inl e
      | Inr (Inl err) \<Rightarrow> Inr (Inl err)
      | Inr (Inr (level, timestamp, msgLen, msgStart)) \<Rightarrow>
          let msgEnd = (if msgLen > 0 then msgStart + msgLen else 0)
          in bind_f (if msgEnd > msgStart then slice b msgStart msgEnd else Inr []) (\<lambda>m.
               let pos = msgStart + msgLen
               in bind_f (if pos < int (length b)
                          then bind_f (byte_at b pos) (\<lambda>fieldCount.
                                 parse_fields b (unat fieldCount) (pos + 1))
                          else Inr ([], False)) (\<lambda>(fl, stopped).
                    Inr (Inr \<lparr>d_level = level, d_timestamp = timestamp, d_message = m,
                               d_block = (pos < int (length b)), d_fields = fl, d_stopped = stopped\<rparr>))))"

text \<open>
  The printing half: what \<open>Write\<close> appends for a decoded value, for the fields and for the
  whole line. \<open>Write_line_Decode\<close> below shows that \<open>Write\<close> is \<open>Decode\<close> followed by
  \<open>render_line\<close>, for every input.
\<close>

definition render_value :: "external \<Rightarrow> bytes \<Rightarrow> dvalue \<Rightarrow> bytes" where
  "render_value ext buf v =
     (case v of
        DInt x \<Rightarrow> appendInt buf x
      | DUint x \<Rightarrow> appendUint buf x
      | DBool t \<Rightarrow> (if t then buf @ ascii ''true'' else buf @ ascii ''false'')
      | DFloat32 x \<Rightarrow> appendFloat32 ext buf x
      | DFloat64 x \<Rightarrow> appendFloat64 ext buf x
      | DString s \<Rightarrow> buf @ escaped_text s
      | DBytes s \<Rightarrow> appendHex buf s
      | DMissing \<Rightarrow> buf @ ascii ''?'')"

fun render_fields ::
  "external \<Rightarrow> bool \<Rightarrow> byte \<Rightarrow> int \<Rightarrow> bytes \<Rightarrow> (bytes \<times> byte \<times> dvalue) list \<Rightarrow> bool \<Rightarrow> bytes" where
  "render_fields ext color level i buf [] stopped =
     (if stopped \<and> i > 0 then buf @ ascii '' '' else buf)"
| "render_fields ext color level i buf ((key, fieldType, v) # rest) stopped =
     (let buf = (if i > 0 then buf @ ascii '' '' else buf);
          buf = (if color \<and> level < 5
                 then buf @ levelColors ! unat level @ key @ colorResetBytes @ ascii ''=''
                 else buf @ key @ ascii ''='')
      in render_fields ext color level (i + 1) (render_value ext buf v) rest stopped)"

definition render_line :: "external \<Rightarrow> bool \<Rightarrow> decoded \<Rightarrow> bytes" where
  "render_line ext color d =
     (let buf = Write_level color (d_level d) [];
          buf = Write_timestamp ext (d_timestamp d) buf;
          buf = buf @ d_message d;
          buf = (if d_block d \<and> 0 < length (d_message d) \<and> length (d_message d) < 40
                 then buf @ replicate (40 - length (d_message d)) 0x20 else buf);
          buf = render_fields ext color (d_level d) 0 buf (d_fields d) (d_stopped d)
      in buf @ ascii [CHR 0x0A])"

subsection \<open>What the encoder is given\<close>

text \<open>
  \<open>Encode\<close> is the record \<open>logFields\<close> hands to the writer: the first \<open>n\<close> bytes of the buffer
  after \<open>formatStructuredMessage\<close> returned \<open>n\<close>.

  \<open>field_fits\<close> holds of a field as one of the constructors builds it (a pointer only in
  a Bytes field, with the length of its memory in \<open>num\<close>), of one of the seven types, whose key
  has at most 255 bytes and whose String or Bytes value has at most 65535: the sizes the
  length prefixes can express. \<open>value_of\<close> is the value such a field carries
  (\<open>value_of_constructors\<close> below relates it to the argument of each constructor).
  \<open>field_bytes\<close> and \<open>record_bytes\<close> are the bytes of a field and of a record when nothing is
  cut, and \<open>record_size\<close> their number.
\<close>

definition Encode ::
  "StructuredLogger \<Rightarrow> 64 word \<Rightarrow> bytes \<Rightarrow> byte \<Rightarrow> bytes \<Rightarrow> Field list \<Rightarrow> fault + bytes" where
  "Encode l nanotime buf level msg fs =
     bind_f (formatStructuredMessage l nanotime buf level msg fs) (\<lambda>(n, buf, l). slice buf 0 n)"

definition field_fits :: "Field \<Rightarrow> bool" where
  "field_fits f \<longleftrightarrow>
     length (Key f) \<le> 255 \<and>
     (Type f = FieldTypeInt \<or> Type f = FieldTypeUint \<or> Type f = FieldTypeFloat32 \<or>
      Type f = FieldTypeFloat64 \<or> Type f = FieldTypeString \<or> Type f = FieldTypeBool \<or>
      Type f = FieldTypeBytes) \<and>
     (Type f = FieldTypeString \<longrightarrow> length (str f) \<le> 65535) \<and>
     (case ptr f of
        None \<Rightarrow> Type f \<noteq> FieldTypeBytes
      | Some mem \<Rightarrow>
          Type f = FieldTypeBytes \<and> num f = of_nat (length mem) \<and> length mem \<le> 65535)"

definition value_of :: "Field \<Rightarrow> dvalue" where
  "value_of f =
     (if Type f = FieldTypeInt then DInt (num f)
      else if Type f = FieldTypeUint then DUint (num f)
      else if Type f = FieldTypeFloat32 then DFloat32 (ucast (num f))
      else if Type f = FieldTypeFloat64 then DFloat64 (num f)
      else if Type f = FieldTypeString then DString (str f)
      else if Type f = FieldTypeBool then DBool (num f \<noteq> 0)
      else if Type f = FieldTypeBytes then DBytes (case ptr f of None \<Rightarrow> [] | Some mem \<Rightarrow> mem)
      else DMissing)"

definition value_bytes :: "Field \<Rightarrow> bytes" where
  "value_bytes f =
     (if Type f = FieldTypeFloat32 then be_bytes 4 (ucast (num f) :: 32 word)
      else if Type f = FieldTypeString
      then be_bytes 2 (of_nat (length (str f)) :: 16 word) @ str f
      else if Type f = FieldTypeBytes
      then (case ptr f of None \<Rightarrow> []
            | Some mem \<Rightarrow> be_bytes 2 (of_nat (length mem) :: 16 word) @ mem)
      else be_bytes 8 (num f))"

definition field_bytes :: "Field \<Rightarrow> bytes" where
  "field_bytes f = [of_nat (length (Key f))] @ Key f @ [Type f] @ value_bytes f"

definition record_bytes :: "byte \<Rightarrow> 64 word \<Rightarrow> 64 word \<Rightarrow> bytes \<Rightarrow> Field list \<Rightarrow> bytes" where
  "record_bytes level seq nanotime msg fs =
     structured_header level seq nanotime @ [of_nat (length msg)] @ msg @
     [of_nat (length fs)] @ concat (map field_bytes fs)"

definition record_size :: "bytes \<Rightarrow> Field list \<Rightarrow> nat" where
  "record_size msg fs = 24 + length msg + sum_list (map (length \<circ> field_bytes) fs)"

section \<open>Ring buffer: proofs\<close>

lemma or_shift_bits:
  fixes x y :: int
  assumes "\<And>i. bit y i \<longleftrightarrow> (\<exists>j<a. bit x (i + j))"
  shows "bit (y OR drop_bit a y) i \<longleftrightarrow> (\<exists>j<2 * a. bit x (i + j))"
proof -
  have "bit (y OR drop_bit a y) i \<longleftrightarrow> (\<exists>j<a. bit x (i + j)) \<or> (\<exists>j<a. bit x (a + i + j))"
    by (simp add: bit_or_iff bit_drop_bit_eq assms)
  also have "\<dots> \<longleftrightarrow> (\<exists>j<2 * a. bit x (i + j))"
  proof
    assume "(\<exists>j<a. bit x (i + j)) \<or> (\<exists>j<a. bit x (a + i + j))"
    then show "\<exists>j<2 * a. bit x (i + j)"
    proof
      assume "\<exists>j<a. bit x (i + j)"
      then obtain j where "j < a" "bit x (i + j)" by blast
      then show ?thesis by (intro exI [of _ j]) simp
    next
      assume "\<exists>j<a. bit x (a + i + j)"
      then obtain j where "j < a" "bit x (a + i + j)" by blast
      then show ?thesis by (intro exI [of _ "a + j"]) (simp add: ac_simps)
    qed
  next
    assume "\<exists>j<2 * a. bit x (i + j)"
    then obtain j where j: "j < 2 * a" "bit x (i + j)" by blast
    show "(\<exists>j<a. bit x (i + j)) \<or> (\<exists>j<a. bit x (a + i + j))"
    proof (cases "j < a")
      case True
      with j show ?thesis by blast
    next
      case False
      with j have "j - a < a" "bit x (a + i + (j - a))" by (simp_all add: ac_simps)
      then show ?thesis by blast
    qed
  qed
  finally show ?thesis .
qed

lemma bit_smear: "bit (smear x) i \<longleftrightarrow> (\<exists>j<64. bit x (i + j))"
proof -
  define n1 where "n1 = x OR drop_bit 1 x"
  define n2 where "n2 = n1 OR drop_bit 2 n1"
  define n3 where "n3 = n2 OR drop_bit 4 n2"
  define n4 where "n4 = n3 OR drop_bit 8 n3"
  define n5 where "n5 = n4 OR drop_bit 16 n4"
  define n6 where "n6 = n5 OR drop_bit 32 n5"
  have b0: "\<And>i. bit x i \<longleftrightarrow> (\<exists>j<1. bit x (i + j))" by simp
  have b1: "\<And>i. bit n1 i \<longleftrightarrow> (\<exists>j<2. bit x (i + j))"
    unfolding n1_def using or_shift_bits [of x 1 x, OF b0] by simp
  have b2: "\<And>i. bit n2 i \<longleftrightarrow> (\<exists>j<4. bit x (i + j))"
    unfolding n2_def using or_shift_bits [of n1 2 x, OF b1] by simp
  have b3: "\<And>i. bit n3 i \<longleftrightarrow> (\<exists>j<8. bit x (i + j))"
    unfolding n3_def using or_shift_bits [of n2 4 x, OF b2] by simp
  have b4: "\<And>i. bit n4 i \<longleftrightarrow> (\<exists>j<16. bit x (i + j))"
    unfolding n4_def using or_shift_bits [of n3 8 x, OF b3] by simp
  have b5: "\<And>i. bit n5 i \<longleftrightarrow> (\<exists>j<32. bit x (i + j))"
    unfolding n5_def using or_shift_bits [of n4 16 x, OF b4] by simp
  have b6: "\<And>i. bit n6 i \<longleftrightarrow> (\<exists>j<64. bit x (i + j))"
    unfolding n6_def using or_shift_bits [of n5 32 x, OF b5] by simp
  have "smear x = n6"
    by (simp add: smear_def Let_def n1_def n2_def n3_def n4_def n5_def n6_def)
  then show ?thesis using b6 by simp
qed

lemma smear_nonneg:
  assumes "0 \<le> m" "m < 2 ^ k" "k \<le> 64" "k = 0 \<or> 2 ^ (k - 1) \<le> m"
  shows "smear m = 2 ^ k - 1"
proof -
  have "smear m = mask k"
  proof (rule bit_eqI)
    fix i
    show "bit (smear m) i \<longleftrightarrow> bit (mask k :: int) i"
    proof (cases "i < k")
      case True
      then have k: "k \<noteq> 0" "2 ^ (k - 1) \<le> m" using assms by auto
      have "m div 2 ^ (k - 1) = 1"
      proof -
        have "m < 2 * 2 ^ (k - 1)" using assms(2) k(1) by (cases k) simp_all
        with k(2) have "m div 2 ^ (k - 1) = (m - 2 ^ (k - 1)) div 2 ^ (k - 1) + 1"
          by (intro div_pos_geq) simp_all
        also have "(m - 2 ^ (k - 1)) div 2 ^ (k - 1) = 0"
          using k(2) \<open>m < 2 * 2 ^ (k - 1)\<close> by (intro div_pos_pos_trivial) simp_all
        finally show ?thesis by simp
      qed
      then have "bit m (k - 1)" by (simp add: bit_iff_odd)
      moreover have "k - 1 - i < 64" "i + (k - 1 - i) = k - 1" using True assms(3) by simp_all
      ultimately have "\<exists>j<64. bit m (i + j)" by metis
      then show ?thesis using True by (simp add: bit_smear bit_mask_iff)
    next
      case False
      have "\<not> bit m (i + j)" for j
      proof -
        have "m < 2 ^ (i + j)"
          using assms(2) False by (smt (verit) power_increasing le_add1 not_less le_trans)
        then have "m div 2 ^ (i + j) = 0" using assms(1) by simp
        then show ?thesis by (simp add: bit_iff_odd)
      qed
      then show ?thesis using False by (simp add: bit_smear bit_mask_iff)
    qed
  qed
  then show ?thesis by (simp add: mask_eq_exp_minus_1)
qed


lemma neg_div_minus1:
  fixes m p :: int
  shows "0 < p \<Longrightarrow> - p \<le> m \<Longrightarrow> m < 0 \<Longrightarrow> m div p = - 1"
  by (smt (verit, best) div_minus_minus div_pos_neg_trivial)

lemma smear_neg:
  assumes "m < 0" "- (2 ^ 63) \<le> m"
  shows "smear m = - 1"
proof (rule bit_eqI)
  fix i :: nat
  define j where "j = 63 - i"
  have j: "j < 64" "63 \<le> i + j" by (simp_all add: j_def)
  have "(2::int) ^ 63 \<le> 2 ^ (i + j)" using j(2) by (intro power_increasing) simp_all
  then have "- (2 ^ (i + j)) \<le> m" using assms(2) by linarith
  then have "m div 2 ^ (i + j) = - 1"
    using assms(1) by (intro neg_div_minus1) simp_all
  then have "bit m (i + j)" by (simp add: bit_iff_odd)
  with j(1) have "\<exists>j<64. bit m (i + j)" by blast
  then show "bit (smear m) i \<longleftrightarrow> bit (- 1 :: int) i" by (simp add: bit_smear)
qed

lemma nextPowerOf2_smear: "nextPowerOf2 n = wrap_int64 (smear (wrap_int64 (n - 1)) + 1)"
  by (simp add: nextPowerOf2_def smear_def Let_def)

lemma wrap_int64_id: "- (2 ^ 63) \<le> x \<Longrightarrow> x < 2 ^ 63 \<Longrightarrow> wrap_int64 x = x"
  by (simp add: wrap_int64_def)

lemma bit_length_ex:
  fixes m :: int
  assumes "0 \<le> m" "m < 2 ^ b"
  shows "\<exists>k\<le>b. m < 2 ^ k \<and> (k = 0 \<or> 2 ^ (k - 1) \<le> m)"
proof -
  define k where "k = (LEAST k. m < 2 ^ k)"
  have mk: "m < 2 ^ k" unfolding k_def using assms(2) by (rule LeastI)
  have kb: "k \<le> b" unfolding k_def using assms(2) by (rule Least_le)
  have "k = 0 \<or> 2 ^ (k - 1) \<le> m"
  proof (cases k)
    case 0
    then show ?thesis by simp
  next
    case (Suc k')
    have "\<not> m < 2 ^ k'"
    proof
      assume "m < 2 ^ k'"
      then have "k \<le> k'" unfolding k_def by (rule Least_le)
      with Suc show False by simp
    qed
    with Suc show ?thesis by simp
  qed
  with mk kb show ?thesis by blast
qed

lemma nextPowerOf2_pos:
  assumes "1 \<le> n" "n \<le> 2 ^ 62"
  shows "\<exists>k\<le>62. nextPowerOf2 n = 2 ^ k \<and> n \<le> 2 ^ k \<and> 2 ^ k < 2 * n"
proof -
  have m: "0 \<le> n - 1" "n - 1 < 2 ^ 62" using assms by simp_all
  from bit_length_ex [OF m] obtain k where k: "k \<le> 62" "n - 1 < 2 ^ k"
    "k = 0 \<or> 2 ^ (k - 1) \<le> n - 1" by blast
  have w: "wrap_int64 (n - 1) = n - 1" using m by (intro wrap_int64_id) simp_all
  have s: "smear (n - 1) = 2 ^ k - 1"
    using m(1) k(2) _ k(3) by (rule smear_nonneg) (use k(1) in simp)
  have "(2::int) ^ k \<le> 2 ^ 62" using k(1) by (intro power_increasing) simp_all
  then have "(2::int) ^ k < 2 ^ 63" by (rule le_less_trans) simp
  moreover have "- (2 ^ 63) \<le> (2::int) ^ k" by (rule order_trans [of _ 0]) simp_all
  ultimately have "wrap_int64 (2 ^ k) = 2 ^ k" by (intro wrap_int64_id)
  then have np: "nextPowerOf2 n = 2 ^ k" unfolding nextPowerOf2_smear w s by simp
  have "2 ^ k < 2 * n"
  proof (cases k)
    case 0
    then show ?thesis using assms(1) by simp
  next
    case (Suc k')
    with k(3) show ?thesis by simp
  qed
  with np k show ?thesis by (intro exI [of _ k]) simp
qed

lemma nextPowerOf2_nonpos:
  assumes "n \<le> 0" "- (2 ^ 63) < n"
  shows "nextPowerOf2 n = 0"
proof -
  have w: "wrap_int64 (n - 1) = n - 1" using assms by (intro wrap_int64_id) simp_all
  have "smear (n - 1) = - 1" using assms by (intro smear_neg) simp_all
  then show ?thesis unfolding nextPowerOf2_smear w by (simp add: wrap_int64_def)
qed

lemma nextPowerOf2_big:
  assumes "2 ^ 62 < n" "n < 2 ^ 63"
  shows "nextPowerOf2 n = - (2 ^ 63)"
proof -
  have w: "wrap_int64 (n - 1) = n - 1" using assms by (intro wrap_int64_id) simp_all
  have "smear (n - 1) = 2 ^ 63 - 1"
    using assms by (intro smear_nonneg) simp_all
  then show ?thesis unfolding nextPowerOf2_smear w by (simp add: wrap_int64_def)
qed

lemma nextPowerOf2_min: "nextPowerOf2 (- (2 ^ 63)) = - (2 ^ 63)"
proof -
  have w: "wrap_int64 (- (2 ^ 63) - 1) = 2 ^ 63 - 1" by (simp add: wrap_int64_def)
  have "smear (2 ^ 63 - 1) = 2 ^ 63 - 1"
    by (rule smear_nonneg) simp_all
  then show ?thesis unfolding nextPowerOf2_smear w by (simp add: wrap_int64_def)
qed

lemma mod_wrap: "a < 2 * c \<Longrightarrow> a mod c = (if a < c then a else a - c)" for a c :: nat
  by (simp add: mod_if)

lemma unat_succ_and_mask:
  fixes h :: "64 word"
  assumes "unat h < 2 ^ k" "k \<le> 62"
  shows "unat ((h + 1) AND mask k) = (unat h + 1) mod 2 ^ k"
proof -
  have "(2::nat) ^ k \<le> 2 ^ 62" using assms(2) by (intro power_increasing) simp_all
  then have "unat h + 1 < 2 ^ 64" using assms(1) by simp
  then have "unat (h + 1) = unat h + 1"
    by (simp add: unat_word_ariths)
  moreover have "unat ((h + 1) AND mask k) = unat (h + 1) mod 2 ^ k"
    by (simp add: unsigned_take_bit_eq flip: take_bit_eq_mask) (simp add: take_bit_eq_mod)
  ultimately show ?thesis by simp
qed

lemma rb_holds_Put:
  assumes "rb_holds rb q"
  shows "Put rb (Some x) =
     (if length q + 1 < length (buffer rb)
      then Inr (True, rb\<lparr>buffer := (buffer rb)[unat (head rb) := Some x],
                          head := (head rb + 1) AND mask_rb rb\<rparr>)
      else Inr (False, rb))"
    and "length q + 1 < length (buffer rb) \<Longrightarrow>
      rb_holds (rb\<lparr>buffer := (buffer rb)[unat (head rb) := Some x],
                     head := (head rb + 1) AND mask_rb rb\<rparr>) (q @ [x])"
proof -
  define c where "c = length (buffer rb)"
  define t where "t = unat (tail rb)"
  define n where "n = length q"
  from assms obtain k where k: "k \<le> 62" "c = 2 ^ k" "mask_rb rb = mask k"
    and t: "t < c" and n: "n < c" and h: "unat (head rb) = (t + n) mod c"
    and b: "buffer rb = map (expected_slot c t q) [0..<c]"
    unfolding rb_holds_def c_def t_def n_def by blast
  have hc: "unat (head rb) < c" using h t by simp
  have nx: "unat ((head rb + 1) AND mask_rb rb) = (unat (head rb) + 1) mod c"
    using unat_succ_and_mask [of "head rb" k] hc k by simp
  have hv: "unat (head rb) = (if t + n < c then t + n else t + n - c)"
    using h t n by (simp add: mod_wrap)
  have full: "(head rb + 1) AND mask_rb rb = tail rb \<longleftrightarrow> \<not> n + 1 < c"
  proof -
    have "(head rb + 1) AND mask_rb rb = tail rb \<longleftrightarrow> (unat (head rb) + 1) mod c = t"
      unfolding t_def nx [symmetric] by (simp add: word_unat_eq_iff)
    also have "\<dots> \<longleftrightarrow> \<not> n + 1 < c"
      using hc t n hv by (auto simp add: mod_wrap split: if_splits)
    finally show ?thesis .
  qed
  show "Put rb (Some x) =
     (if length q + 1 < length (buffer rb)
      then Inr (True, rb\<lparr>buffer := (buffer rb)[unat (head rb) := Some x],
                          head := (head rb + 1) AND mask_rb rb\<rparr>)
      else Inr (False, rb))"
    using full hc by (simp add: Put_def Let_def c_def n_def)
  show "rb_holds (rb\<lparr>buffer := (buffer rb)[unat (head rb) := Some x],
                     head := (head rb + 1) AND mask_rb rb\<rparr>) (q @ [x])"
    if lt: "length q + 1 < length (buffer rb)"
  proof -
    have n1: "n + 1 < c" using lt by (simp add: n_def c_def)
    have "(buffer rb)[unat (head rb) := Some x] = map (expected_slot c t (q @ [x])) [0..<c]"
    proof (rule nth_equalityI)
      show "length ((buffer rb)[unat (head rb) := Some x]) = length (map (expected_slot c t (q @ [x])) [0..<c])"
        by (simp add: c_def)
    next
      fix i assume "i < length ((buffer rb)[unat (head rb) := Some x])"
      then have i: "i < c" by (simp add: c_def)
      have d: "(i + c - t) mod c = (if t \<le> i then i - t else i + c - t)"
        using i t by (simp add: mod_wrap)
      have old: "buffer rb ! i = expected_slot c t q i"
        using i by (subst b) simp
      show "(buffer rb)[unat (head rb) := Some x] ! i = map (expected_slot c t (q @ [x])) [0..<c] ! i"
      proof (cases "i = unat (head rb)")
        case True
        then have "(i + c - t) mod c = n" using d hv t n i by (auto split: if_splits)
        then show ?thesis using True i hc
          by (simp add: expected_slot_def c_def [symmetric] n_def)
      next
        case False
        then have ne: "(i + c - t) mod c \<noteq> n" using d hv t n i by (auto split: if_splits)
        then show ?thesis using False i old
          by (auto simp add: expected_slot_def Let_def n_def nth_append c_def [symmetric])
      qed
    qed
    moreover have "unat ((head rb + 1) AND mask_rb rb) = (t + (n + 1)) mod c"
      using nx h by (simp add: mod_simps ac_simps)
    ultimately show ?thesis
      unfolding rb_holds_def using k t n1
      by (simp add: c_def [symmetric] t_def [symmetric] n_def [symmetric])
  qed
qed

lemma rb_holds_Get_Nil:
  assumes "rb_holds rb []"
  shows "Get rb = Some (Inr ((None, False), rb))"
proof -
  from assms have "unat (head rb) = unat (tail rb)"
    unfolding rb_holds_def by simp
  then have "head rb = tail rb" by (simp add: word_unat_eq_iff)
  then show ?thesis by (subst Get.simps) simp
qed

lemma rb_holds_Get_Cons:
  assumes "rb_holds rb (x # q)"
  shows "Get rb = Some (Inr ((Some x, True),
            rb\<lparr>tail := (tail rb + 1) AND mask_rb rb,
               buffer := (buffer rb)[unat (tail rb) := None]\<rparr>))"
    and "rb_holds (rb\<lparr>tail := (tail rb + 1) AND mask_rb rb,
               buffer := (buffer rb)[unat (tail rb) := None]\<rparr>) q"
proof -
  define c where "c = length (buffer rb)"
  define t where "t = unat (tail rb)"
  define n where "n = length q"
  from assms obtain k where k: "k \<le> 62" "c = 2 ^ k" "mask_rb rb = mask k"
    and t: "t < c" and n: "Suc n < c" and h: "unat (head rb) = (t + Suc n) mod c"
    and b: "buffer rb = map (expected_slot c t (x # q)) [0..<c]"
    unfolding rb_holds_def c_def t_def n_def by auto
  have nx: "unat ((tail rb + 1) AND mask_rb rb) = (t + 1) mod c"
    using unat_succ_and_mask [of "tail rb" k] t k by (simp add: t_def)
  have hv: "unat (head rb) = (if t + Suc n < c then t + Suc n else t + Suc n - c)"
    using h t n by (simp add: mod_wrap)
  have "unat (head rb) \<noteq> t" using hv t n by (auto split: if_splits)
  then have ne: "tail rb \<noteq> head rb" by (auto simp add: t_def)
  have slot: "buffer rb ! t = Some x"
    using t by (subst b) (simp add: expected_slot_def)
  have w: "Get_wait (rb\<lparr>tail := (tail rb + 1) AND mask_rb rb\<rparr>) (tail rb) =
      Some (Inr (x, rb\<lparr>tail := (tail rb + 1) AND mask_rb rb,
               buffer := (buffer rb)[unat (tail rb) := None]\<rparr>))"
    using t slot by (subst Get_wait.simps) (simp add: t_def c_def)
  show "Get rb = Some (Inr ((Some x, True),
            rb\<lparr>tail := (tail rb + 1) AND mask_rb rb,
               buffer := (buffer rb)[unat (tail rb) := None]\<rparr>))"
    using ne by (subst Get.simps) (simp add: Let_def CompareAndSwap_tail_def w)
  have "(buffer rb)[t := None] = map (expected_slot c ((t + 1) mod c) q) [0..<c]"
  proof (rule nth_equalityI)
    show "length ((buffer rb)[t := None]) = length (map (expected_slot c ((t + 1) mod c) q) [0..<c])"
      by (simp add: c_def)
  next
    fix i assume "i < length ((buffer rb)[t := None])"
    then have i: "i < c" by (simp add: c_def)
    have t1: "(t + 1) mod c = (if t + 1 < c then t + 1 else 0)"
      using t by (simp add: mod_wrap)
    have d: "(i + c - t) mod c = (if t \<le> i then i - t else i + c - t)"
      using i t by (simp add: mod_wrap)
    have old: "buffer rb ! i = expected_slot c t (x # q) i"
      using i by (subst b) simp
    show "(buffer rb)[t := None] ! i = map (expected_slot c ((t + 1) mod c) q) [0..<c] ! i"
    proof (cases "i = t")
      case True
      have "(t + c - (t + 1) mod c) mod c = c - 1"
        using t t1 by (auto simp add: mod_wrap)
      moreover have "\<not> c - 1 < n" using n by simp
      ultimately show ?thesis using True i t
        by (simp add: expected_slot_def Let_def c_def [symmetric] n_def [symmetric])
    next
      case False
      have "(i + c - (t + 1) mod c) mod c = (i + c - t) mod c - 1" "0 < (i + c - t) mod c"
        using False i t t1 d by (auto simp add: mod_wrap split: if_splits)
      then show ?thesis using False i old
        by (cases "(i + c - t) mod c") (auto simp add: expected_slot_def Let_def c_def [symmetric])
    qed
  qed
  moreover have "unat (head rb) = ((t + 1) mod c + n) mod c"
    using h by (simp add: mod_simps ac_simps)
  moreover have "(t + 1) mod c < c" using t by simp
  ultimately show "rb_holds (rb\<lparr>tail := (tail rb + 1) AND mask_rb rb,
               buffer := (buffer rb)[unat (tail rb) := None]\<rparr>) q"
    unfolding rb_holds_def using k n nx
    by (simp add: c_def [symmetric] t_def [symmetric] n_def [symmetric])
qed

lemma rb_holds_New:
  assumes "1 \<le> R" "R \<le> 2 ^ 45"
  shows "\<exists>k\<le>62. \<exists>rb. NewRingBuffer R = Inr rb \<and> rb_holds rb [] \<and>
            length (buffer rb) = 2 ^ k \<and> R \<le> 2 ^ k \<and> 2 ^ k < 2 * R"
proof -
  have "R \<le> 2 ^ 62" using assms(2) by simp
  from nextPowerOf2_pos [OF assms(1) this] obtain k where k: "k \<le> 62" "nextPowerOf2 R = 2 ^ k"
    "R \<le> 2 ^ k" "2 ^ k < 2 * R" by blast
  have "(2::int) ^ k < 2 ^ 46" using k(4) assms(2) by simp
  then have "k < 46" by (rule power_less_imp_less_exp [rotated]) simp
  then have "(2::int) ^ k \<le> 2 ^ 45" by (intro power_increasing) simp_all
  then have fits: "\<not> 8 * (2::int) ^ k > maxAlloc" by (simp add: maxAlloc_def)
  define rb :: "'a RingBuffer" where
    "rb = \<lparr>mask_rb = word_of_int (2 ^ k - 1), head = 0, tail = 0, buffer = replicate (2 ^ k) None\<rparr>"
  have new: "NewRingBuffer R = Inr rb"
    using fits by (simp add: NewRingBuffer_def Let_def k(2) rb_def nat_power_eq)
  have m: "(word_of_int (2 ^ k - 1) :: 64 word) = mask k"
    by (simp add: mask_eq_exp_minus_1)
  have "replicate (2 ^ k) None = map (expected_slot (2 ^ k) 0 ([] :: 'a list)) [0..<2 ^ k]"
    by (rule nth_equalityI) (simp_all add: expected_slot_def)
  then have "rb_holds rb []"
    unfolding rb_holds_def using k(1) by (auto simp add: rb_def mask_eq_exp_minus_1)
  with new k show ?thesis by (auto simp add: rb_def)
qed

lemma NewRingBuffer_too_big:
  assumes "2 ^ 45 < R" "R \<le> 2 ^ 62"
  shows "NewRingBuffer R = (Inl MakeSliceOutOfRange :: fault + 'a RingBuffer)"
proof -
  have "(1::int) \<le> 2 ^ 45" by simp
  then have "1 \<le> R" using assms(1) by linarith
  from nextPowerOf2_pos [OF this assms(2)] obtain k where
    k: "nextPowerOf2 R = 2 ^ k" "R \<le> 2 ^ k" by blast
  have "8 * (2::int) ^ k > maxAlloc" using assms(1) k(2) by (simp add: maxAlloc_def)
  then show ?thesis by (simp add: NewRingBuffer_def Let_def k(1))
qed

lemma rb_holds_step:
  assumes "rb_holds rb q"
  shows "\<exists>rb' q'. rb_step (rb, int (length q)) c = Some (Inr (rb', int (length q'))) \<and>
           rb_holds rb' q' \<and> length (buffer rb') = length (buffer rb)"
proof (cases c)
  case (CallPut x)
  show ?thesis
  proof (cases "length q + 1 < length (buffer rb)")
    case True
    let ?rb' = "rb\<lparr>buffer := (buffer rb)[unat (head rb) := Some x],
                     head := (head rb + 1) AND mask_rb rb\<rparr>"
    have "rb_step (rb, int (length q)) c = Some (Inr (?rb', int (length (q @ [x]))))"
      using True by (simp add: CallPut rb_holds_Put(1) [OF assms])
    moreover have "rb_holds ?rb' (q @ [x])" using True by (rule rb_holds_Put(2) [OF assms])
    ultimately show ?thesis by (intro exI [of _ ?rb'] exI [of _ "q @ [x]"]) simp
  next
    case False
    then have "rb_step (rb, int (length q)) c = Some (Inr (rb, int (length q)))"
      by (simp add: CallPut rb_holds_Put(1) [OF assms])
    with assms show ?thesis by blast
  qed
next
  case CallGet
  show ?thesis
  proof (cases q)
    case Nil
    then have "rb_step (rb, int (length q)) c = Some (Inr (rb, int (length q)))"
      using assms by (simp add: CallGet rb_holds_Get_Nil)
    with assms show ?thesis by blast
  next
    case (Cons x q')
    let ?rb' = "rb\<lparr>tail := (tail rb + 1) AND mask_rb rb,
               buffer := (buffer rb)[unat (tail rb) := None]\<rparr>"
    from assms Cons have h: "rb_holds rb (x # q')" by simp
    have "rb_step (rb, int (length q)) c = Some (Inr (?rb', int (length q')))"
      by (simp add: CallGet Cons rb_holds_Get_Cons(1) [OF h])
    moreover have "rb_holds ?rb' q'" by (rule rb_holds_Get_Cons(2) [OF h])
    ultimately show ?thesis by (intro exI [of _ ?rb'] exI [of _ q']) simp
  qed
qed

lemma rb_holds_run:
  assumes "rb_holds rb q"
  shows "\<exists>rb' q'. rb_run (rb, int (length q)) cs = Some (Inr (rb', int (length q'))) \<and>
           rb_holds rb' q' \<and> length (buffer rb') = length (buffer rb)"
  using assms
proof (induction cs arbitrary: rb q)
  case Nil
  then show ?case by auto
next
  case (Cons c cs)
  from rb_holds_step [OF Cons.prems, of c] obtain rb1 q1 where
    s: "rb_step (rb, int (length q)) c = Some (Inr (rb1, int (length q1)))"
    and h: "rb_holds rb1 q1" and l: "length (buffer rb1) = length (buffer rb)" by blast
  from Cons.IH [OF h] obtain rb' q' where
    "rb_run (rb1, int (length q1)) cs = Some (Inr (rb', int (length q')))"
    "rb_holds rb' q'" "length (buffer rb') = length (buffer rb1)" by blast
  with s l show ?case by (intro exI [of _ rb'] exI [of _ q']) simp
qed

lemma rb_holds_vacant:
  assumes "rb_holds rb q"
  shows "None \<in> set (buffer rb)"
proof -
  define c where "c = length (buffer rb)"
  define t where "t = unat (tail rb)"
  from assms have t: "t < c" and n: "length q < c"
    and b: "buffer rb = map (expected_slot c t q) [0..<c]"
    unfolding rb_holds_def c_def t_def by auto
  define i where "i = (t + length q) mod c"
  have i: "i < c" using t by (simp add: i_def)
  have "(i + c - t) mod c = length q"
    using t n by (auto simp add: i_def mod_wrap)
  then have "buffer rb ! i = None"
    using i by (subst b) (simp add: expected_slot_def)
  moreover have "i < length (buffer rb)" using i by (simp add: c_def)
  ultimately show ?thesis by (metis nth_mem)
qed

lemma rb_holds_put_all:
  assumes "rb_holds rb q" "length q + length xs < length (buffer rb)"
  shows "\<exists>rb'. put_all rb xs = Inr (replicate (length xs) True, rb') \<and> rb_holds rb' (q @ xs) \<and>
           length (buffer rb') = length (buffer rb)"
  using assms
proof (induction xs arbitrary: rb q)
  case Nil
  then show ?case by simp
next
  case (Cons x xs)
  let ?rb1 = "rb\<lparr>buffer := (buffer rb)[unat (head rb) := Some x],
                     head := (head rb + 1) AND mask_rb rb\<rparr>"
  have lt: "length q + 1 < length (buffer rb)" using Cons.prems(2) by simp
  have p: "Put rb (Some x) = Inr (True, ?rb1)"
    using lt by (simp add: rb_holds_Put(1) [OF Cons.prems(1)])
  have h: "rb_holds ?rb1 (q @ [x])" using lt by (rule rb_holds_Put(2) [OF Cons.prems(1)])
  have "length (q @ [x]) + length xs < length (buffer ?rb1)" using Cons.prems(2) by simp
  from Cons.IH [OF h this] obtain rb' where
    "put_all ?rb1 xs = Inr (replicate (length xs) True, rb')" "rb_holds rb' ((q @ [x]) @ xs)"
    "length (buffer rb') = length (buffer ?rb1)" by blast
  with p show ?case by (intro exI [of _ rb']) simp
qed

lemma rb_holds_get_n:
  assumes "rb_holds rb (xs @ q)"
  shows "\<exists>rb'. get_n rb (length xs) = Some (Inr (map (\<lambda>x. (Some x, True)) xs, rb')) \<and>
           rb_holds rb' q"
  using assms
proof (induction xs arbitrary: rb)
  case Nil
  then show ?case by simp
next
  case (Cons x xs)
  let ?rb1 = "rb\<lparr>tail := (tail rb + 1) AND mask_rb rb,
               buffer := (buffer rb)[unat (tail rb) := None]\<rparr>"
  from Cons.prems have h: "rb_holds rb (x # (xs @ q))" by simp
  have g: "Get rb = Some (Inr ((Some x, True), ?rb1))" by (rule rb_holds_Get_Cons(1) [OF h])
  have "rb_holds ?rb1 (xs @ q)" by (rule rb_holds_Get_Cons(2) [OF h])
  from Cons.IH [OF this] obtain rb' where
    "get_n ?rb1 (length xs) = Some (Inr (map (\<lambda>x. (Some x, True)) xs, rb'))" "rb_holds rb' q"
    by blast
  with g show ?case by (intro exI [of _ rb']) simp
qed

lemma rb_holds_empty_iff:
  assumes "rb_holds rb q"
  shows "head rb = tail rb \<longleftrightarrow> q = []"
proof -
  define c where "c = length (buffer rb)"
  define t where "t = unat (tail rb)"
  from assms have t: "t < c" and n: "length q < c"
    and h: "unat (head rb) = (t + length q) mod c"
    unfolding rb_holds_def c_def t_def by auto
  have "head rb = tail rb \<longleftrightarrow> unat (head rb) = t"
    unfolding t_def by (simp add: word_unat_eq_iff)
  also have "\<dots> \<longleftrightarrow> (t + length q) mod c = t"
    by (simp add: h)
  also have "\<dots> \<longleftrightarrow> length q = 0" using t n by (auto simp add: mod_wrap split: if_splits)
  finally show ?thesis by simp
qed

lemma rb_step_no_slots:
  assumes "buffer rb = []" "head rb = tail rb" "rb_step (rb, occ) c = Some (Inr s')"
  shows "s' = (rb, occ)"
proof (cases c)
  case (CallPut x)
  with assms show ?thesis
    by (auto simp add: Put_def Let_def split: if_splits)
next
  case CallGet
  have "Get rb = Some (Inr ((None, False), rb))"
    using assms(2) by (subst Get.simps) simp
  with assms CallGet show ?thesis by simp
qed

lemma rb_run_no_slots:
  assumes "buffer rb = []" "head rb = tail rb" "rb_run (rb, occ) cs = Some (Inr s')"
  shows "s' = (rb, occ)"
  using assms
proof (induction cs)
  case Nil
  then show ?case by simp
next
  case (Cons c cs)
  from Cons.prems(3) obtain s1 where s1: "rb_step (rb, occ) c = Some (Inr s1)"
    and r: "rb_run s1 cs = Some (Inr s')"
    by (auto split: option.splits sum.splits)
  have "s1 = (rb, occ)" using Cons.prems(1,2) s1 by (rule rb_step_no_slots)
  with r Cons show ?case by simp
qed

lemma NewRingBuffer_cases:
  assumes "- (2 ^ 63) \<le> R" "R < 2 ^ 63" "NewRingBuffer R = Inr (rb0 :: 'a RingBuffer)"
  shows "(1 \<le> R \<and> R \<le> 2 ^ 45 \<and> rb_holds rb0 []) \<or>
         (buffer rb0 = [] \<and> head rb0 = tail rb0)"
proof -
  consider "R = - (2 ^ 63)" | "- (2 ^ 63) < R" "R \<le> 0" | "1 \<le> R" "R \<le> 2 ^ 45"
    | "2 ^ 45 < R" "R \<le> 2 ^ 62" | "2 ^ 62 < R"
    using assms(1) by linarith
  then show ?thesis
  proof cases
    case 1
    have np: "nextPowerOf2 R = - (2 ^ 63)" unfolding 1 by (rule nextPowerOf2_min)
    have "NewRingBuffer R = (Inl MakeSliceOutOfRange :: fault + 'a RingBuffer)"
      unfolding NewRingBuffer_def np by simp
    with assms(3) show ?thesis by simp
  next
    case 2
    then have "nextPowerOf2 R = 0" by (intro nextPowerOf2_nonpos)
    with assms(3) show ?thesis by (auto simp add: NewRingBuffer_def maxAlloc_def)
  next
    case 3
    from rb_holds_New [OF 3, where ?'a = 'a] assms(3) have "rb_holds rb0 []" by auto
    with 3 show ?thesis by simp
  next
    case 4
    from NewRingBuffer_too_big [OF 4, where ?'a = 'a] assms(3) show ?thesis by simp
  next
    case 5
    then have np: "nextPowerOf2 R = - (2 ^ 63)" using assms(2) by (intro nextPowerOf2_big)
    have "NewRingBuffer R = (Inl MakeSliceOutOfRange :: fault + 'a RingBuffer)"
      unfolding NewRingBuffer_def np by simp
    with assms(3) show ?thesis by simp
  qed
qed

text \<open>
  The constructor either panics (a size above \<open>2 ^ 45\<close> or the least \<open>int\<close>), or returns
  a ring with no slot at all (a size below one), or a well-formed empty ring.
  \<^bold>\<open>Claim C7.\<close> On a ring built by \<open>NewRingBuffer\<close> and used by one goroutine, at any moment
  the ring is empty: if \<open>N\<close> is at most the capacity minus one, then \<open>N\<close> calls of \<open>Put\<close>
  all return true, and the \<open>N\<close> calls of \<open>Get\<close> that follow all report success and return
  the same items in the order they were put.
\<close>

theorem ring_fifo:
  assumes "- (2 ^ 63) \<le> R" "R < 2 ^ 63"
    and "NewRingBuffer R = Inr rb0"
    and "rb_run (rb0, 0) calls = Some (Inr (rb, occ))"
    and "head rb = tail rb"
    and "int (length items) \<le> int (length (buffer rb)) - 1"
  shows "\<exists>rb1 rb2.
           put_all rb items = Inr (replicate (length items) True, rb1) \<and>
           get_n rb1 (length items) = Some (Inr (map (\<lambda>x. (Some x, True)) items, rb2))"
proof -
  from NewRingBuffer_cases [OF assms(1-3)]
  have "rb_holds rb []"
  proof
    assume "1 \<le> R \<and> R \<le> 2 ^ 45 \<and> rb_holds rb0 []"
    then have h0: "rb_holds rb0 []" by simp
    from rb_holds_run [OF h0, of calls] assms(4) obtain q where "rb_holds rb q" by auto
    with assms(5) show ?thesis by (simp add: rb_holds_empty_iff)
  next
    assume e: "buffer rb0 = [] \<and> head rb0 = tail rb0"
    then have "(rb, occ) = (rb0, 0)" using assms(4) by (intro rb_run_no_slots) simp_all
    with e assms(6) show ?thesis by simp
  qed
  moreover have "length ([] :: 'a list) + length items < length (buffer rb)"
    using assms(6) by simp
  ultimately obtain rb1 where p: "put_all rb items = Inr (replicate (length items) True, rb1)"
    and h1: "rb_holds rb1 ([] @ items)"
    using rb_holds_put_all [of rb "[]" items] by blast
  from h1 have "rb_holds rb1 (items @ [])" by simp
  from rb_holds_get_n [OF this] p show ?thesis by blast
qed

text \<open>
  For a requested size from 1 to \<open>2 ^ 45\<close>, the largest ring \<open>make\<close> accepts, the
  capacity is the least power of two that
  is at least the size; in every sequential execution \<open>Put\<close> returns false exactly when
  the occupancy is the capacity minus one, the occupancy stays between 0 and the capacity
  minus one, and some slot is nil.
\<close>

lemma ring_capacity_semantics:
  assumes "1 \<le> R" "R \<le> 2 ^ 45"
  shows "\<exists>k\<le>62. \<exists>rb0. NewRingBuffer R = Inr rb0 \<and> length (buffer rb0) = 2 ^ k \<and>
           R \<le> 2 ^ k \<and> 2 ^ k < 2 * R \<and>
           (\<forall>calls. \<exists>rb occ. rb_run (rb0, 0) calls = Some (Inr (rb, occ)) \<and>
              0 \<le> occ \<and> occ \<le> 2 ^ k - 1 \<and> length (buffer rb) = 2 ^ k \<and>
              None \<in> set (buffer rb) \<and>
              (\<forall>x. \<exists>rb'. Put rb (Some x) = Inr (occ \<noteq> 2 ^ k - 1, rb')))"
proof -
  from rb_holds_New [OF assms, where ?'a = 'a] obtain k and rb0 :: "'a RingBuffer" where
    k: "k \<le> 62" and new: "NewRingBuffer R = Inr rb0" and h0: "rb_holds rb0 []"
    and c: "length (buffer rb0) = 2 ^ k" and b: "R \<le> 2 ^ k" "2 ^ k < 2 * R" by blast
  have "\<exists>rb occ. rb_run (rb0, 0) calls = Some (Inr (rb, occ)) \<and>
              0 \<le> occ \<and> occ \<le> 2 ^ k - 1 \<and> length (buffer rb) = 2 ^ k \<and>
              None \<in> set (buffer rb) \<and>
              (\<forall>x. \<exists>rb'. Put rb (Some x) = Inr (occ \<noteq> 2 ^ k - 1, rb'))" for calls
  proof -
    from rb_holds_run [OF h0, of calls] obtain rb q where
      r: "rb_run (rb0, 0) calls = Some (Inr (rb, int (length q)))" and h: "rb_holds rb q"
      and l: "length (buffer rb) = 2 ^ k" using c by auto
    have n: "length q < 2 ^ k" using h l unfolding rb_holds_def by simp
    then have n': "int (length q) \<le> 2 ^ k - 1"
      by (metis of_nat_less_iff of_nat_numeral of_nat_power zle_diff1_eq)
    have e: "int (length q) = 2 ^ k - 1 \<longleftrightarrow> \<not> length q + 1 < 2 ^ k"
    proof -
      have "int (length q) = 2 ^ k - 1 \<longleftrightarrow> int (length q + 1) = int (2 ^ k)" by auto
      also have "\<dots> \<longleftrightarrow> length q + 1 = 2 ^ k" by (rule of_nat_eq_iff)
      also have "\<dots> \<longleftrightarrow> \<not> length q + 1 < 2 ^ k" using n by auto
      finally show ?thesis .
    qed
    have "\<exists>rb'. Put rb (Some x) = Inr (int (length q) \<noteq> 2 ^ k - 1, rb')" for x
      using rb_holds_Put(1) [OF h, of x] e l by auto
    with r l n' rb_holds_vacant [OF h] show ?thesis
      by (intro exI [of _ rb] exI [of _ "int (length q)"]) simp
  qed
  with k new c b show ?thesis by blast
qed

lemma nextPowerOf2_4: "nextPowerOf2 4 = 4"
  by (simp add: nextPowerOf2_def wrap_int64_def Let_def)

lemma nextPowerOf2_0: "nextPowerOf2 0 = 0"
  by (simp add: nextPowerOf2_def wrap_int64_def Let_def)

text \<open>
  \<^bold>\<open>Claim C6\<close> at the requested size 0. The constructor's comment says the size is made a
  power of two, and \<open>nextPowerOf2\<close> is documented to return the next power of two that is
  at least its argument; for 0 it returns 0. The ring then has no slot, its mask is all
  ones, and the first \<open>Put\<close> indexes slot 0 of an empty slice: it panics instead of
  returning false.
\<close>

theorem ring_requested_size_zero:
  "nextPowerOf2 0 = 0 \<and>
   NewRingBuffer 0 = Inr \<lparr>mask_rb = - 1, head = 0, tail = 0, buffer = []\<rparr> \<and>
   Put \<lparr>mask_rb = - 1, head = 0, tail = 0, buffer = []\<rparr> (Some x) = Inl IndexOutOfRange"
  by (simp add: NewRingBuffer_def maxAlloc_def nextPowerOf2_0 Put_def)

theorem ring_fifo_witness:
  "\<exists>rb0 rb. NewRingBuffer 4 = Inr rb0 \<and>
     rb_run (rb0, 0) [CallPut 9, CallGet] = Some (Inr (rb, 0)) \<and>
     head rb = tail rb \<and>
     int (length [1, 2, 3 :: nat]) \<le> int (length (buffer rb)) - 1 \<and>
     (\<exists>rb1 rb2. put_all rb [1, 2, 3 :: nat] = Inr ([True, True, True], rb1) \<and>
        get_n rb1 3 = Some (Inr ([(Some 1, True), (Some 2, True), (Some 3, True)], rb2)))"
proof -
  define rb0 :: "nat RingBuffer" where
    "rb0 = \<lparr>mask_rb = 3, head = 0, tail = 0, buffer = [None, None, None, None]\<rparr>"
  define rb :: "nat RingBuffer" where
    "rb = \<lparr>mask_rb = 3, head = 1, tail = 1, buffer = [None, None, None, None]\<rparr>"
  have n: "NewRingBuffer 4 = Inr rb0"
    by (simp add: NewRingBuffer_def maxAlloc_def nextPowerOf2_4 rb0_def numeral_eq_Suc)
  have r: "rb_run (rb0, 0) [CallPut 9, CallGet] = Some (Inr (rb, 0))"
    by (simp add: rb0_def rb_def Put_def Get.simps Get_wait.simps CompareAndSwap_tail_def)
  have e: "head rb = tail rb" by (simp add: rb_def)
  have l: "int (length [1, 2, 3 :: nat]) \<le> int (length (buffer rb)) - 1" by (simp add: rb_def)
  from ring_fifo [OF _ _ n r e l] have
    "\<exists>rb1 rb2. put_all rb [1, 2, 3 :: nat] = Inr ([True, True, True], rb1) \<and>
        get_n rb1 3 = Some (Inr ([(Some 1, True), (Some 2, True), (Some 3, True)], rb2))"
    by (simp add: numeral_eq_Suc)
  with n r e l show ?thesis by blast
qed
section \<open>Asynchronous writer: proofs\<close>

lemma Write_done_unfold:
  assumes "aw_done aw"
  shows "Write aw b =
     (let entry = copy_into_entry (fst (Pool_Get \<lparr>data = [], data_cap = 0\<rparr> (aw_pool aw))) b;
          p = snd (Pool_Get \<lparr>data = [], data_cap = 0\<rparr> (aw_pool aw))
      in case Put (aw_rb aw) (Some entry) of
           Inl e \<Rightarrow> Some (Inl e)
         | Inr (ok, r) \<Rightarrow>
             if ok then Some (Inr ((int (length b), None), aw\<lparr>aw_pool := p, aw_rb := r\<rparr>))
             else Some (Inr ((0, Some ErrClosedPipe), aw\<lparr>aw_pool := Pool_Put p entry\<rparr>)))"
  using assms
  by (simp add: Write_def Let_def case_prod_unfold Write_retry.simps split: sum.splits)

lemma data_copy_into_entry: "data (copy_into_entry entry b) = b"
  by (simp add: copy_into_entry_def)

text \<open>
  What \<open>Write\<close> does once \<open>Close\<close> has set the \<open>done\<close> flag, on a ring that holds the
  entries \<open>q\<close>. The flag is read only inside the loop that runs after a \<open>Put\<close> has failed.
  So the closed-pipe error is returned, with the ring unchanged, only when the ring is full;
  when the ring has a free slot (fewer than capacity minus one entries) the flag is never
  read, the entry is enqueued behind \<open>q\<close> and the call returns the length of the data and
  no error. In both cases the call itself delivers nothing to the sink.
\<close>

theorem Write_after_Close:
  assumes "aw_done aw" and "rb_holds (aw_rb aw) q"
  shows "(length q + 1 < length (buffer (aw_rb aw)) \<longrightarrow>
           (\<exists>aw' e. Write aw b = Some (Inr ((int (length b), None), aw')) \<and>
              data e = b \<and> rb_holds (aw_rb aw') (q @ [e]) \<and> aw_writer aw' = aw_writer aw)) \<and>
         (length q + 1 = length (buffer (aw_rb aw)) \<longrightarrow>
           (\<exists>aw'. Write aw b = Some (Inr ((0, Some ErrClosedPipe), aw')) \<and>
              aw_rb aw' = aw_rb aw \<and> aw_writer aw' = aw_writer aw))"
proof (intro conjI impI)
  define entry where
    "entry = copy_into_entry (fst (Pool_Get \<lparr>data = [], data_cap = 0\<rparr> (aw_pool aw))) b"
  define p where "p = snd (Pool_Get \<lparr>data = [], data_cap = 0\<rparr> (aw_pool aw))"
  let ?r = "(aw_rb aw)\<lparr>buffer := (buffer (aw_rb aw))[unat (head (aw_rb aw)) := Some entry],
                        head := (head (aw_rb aw) + 1) AND mask_rb (aw_rb aw)\<rparr>"
  {
    assume lt: "length q + 1 < length (buffer (aw_rb aw))"
    have "Put (aw_rb aw) (Some entry) = Inr (True, ?r)"
      using lt by (simp add: rb_holds_Put(1) [OF assms(2)])
    then have "Write aw b = Some (Inr ((int (length b), None), aw\<lparr>aw_pool := p, aw_rb := ?r\<rparr>))"
      by (simp add: Write_done_unfold [OF assms(1)] Let_def entry_def p_def)
    moreover have "rb_holds ?r (q @ [entry])" using lt by (rule rb_holds_Put(2) [OF assms(2)])
    moreover have "data entry = b" by (simp add: entry_def data_copy_into_entry)
    ultimately show "\<exists>aw' e. Write aw b = Some (Inr ((int (length b), None), aw')) \<and>
              data e = b \<and> rb_holds (aw_rb aw') (q @ [e]) \<and> aw_writer aw' = aw_writer aw"
      by (intro exI [of _ "aw\<lparr>aw_pool := p, aw_rb := ?r\<rparr>"] exI [of _ entry]) simp
  }
  {
    assume eq: "length q + 1 = length (buffer (aw_rb aw))"
    have "Put (aw_rb aw) (Some entry) = Inr (False, aw_rb aw)"
      using eq by (simp add: rb_holds_Put(1) [OF assms(2)])
    then have "Write aw b = Some (Inr ((0, Some ErrClosedPipe), aw\<lparr>aw_pool := Pool_Put p entry\<rparr>))"
      by (simp add: Write_done_unfold [OF assms(1)] Let_def entry_def p_def)
    then show "\<exists>aw'. Write aw b = Some (Inr ((0, Some ErrClosedPipe), aw')) \<and>
              aw_rb aw' = aw_rb aw \<and> aw_writer aw' = aw_writer aw"
      by (intro exI [of _ "aw\<lparr>aw_pool := Pool_Put p entry\<rparr>"]) simp
  }
qed

text \<open>
  \<^bold>\<open>Claim C2\<close> on a closed writer whose ring has a free slot. A writer is built with 4
  slots and no worker, and closed at once. \<open>Write\<close> of three bytes is then not rejected:
  it returns 3 and no error instead of the closed-pipe error, and the entry is left in slot
  0 of the ring, where no worker that has drained and exited will find it. The sink has
  received nothing.
\<close>

theorem Write_after_Close_not_rejected:
  "map_sum id Close (NewAsyncWriterV2 4) =
     Inr \<lparr>aw_rb = \<lparr>mask_rb = 3, head = 0, tail = 0, buffer = [None, None, None, None]\<rparr>,
          aw_writer = [], aw_done = True, aw_pool = []\<rparr> \<and>
   Write \<lparr>aw_rb = \<lparr>mask_rb = 3, head = 0, tail = 0, buffer = [None, None, None, None]\<rparr>,
          aw_writer = [], aw_done = True, aw_pool = []\<rparr> [1, 2, 3] =
     Some (Inr ((3, None),
       \<lparr>aw_rb = \<lparr>mask_rb = 3, head = 1, tail = 0,
                 buffer = [Some \<lparr>data = [1, 2, 3], data_cap = 3\<rparr>, None, None, None]\<rparr>,
        aw_writer = [], aw_done = True, aw_pool = []\<rparr>))"
  by (simp add: NewAsyncWriterV2_def NewRingBuffer_def maxAlloc_def nextPowerOf2_4 Close_def numeral_eq_Suc
      Write_def Pool_Get_def copy_into_entry_def Write_retry.simps Put_def)


theorem Write_after_Close_witness:
  "aw_done \<lparr>aw_rb = \<lparr>mask_rb = 1, head = 0, tail = 0, buffer = [None, None]\<rparr>,
            aw_writer = [], aw_done = True, aw_pool = []\<rparr> \<and>
   rb_holds \<lparr>mask_rb = 1, head = 0, tail = 0, buffer = [None, None]\<rparr> ([] :: LogEntry list) \<and>
   (\<exists>aw' e. Write \<lparr>aw_rb = \<lparr>mask_rb = 1, head = 0, tail = 0, buffer = [None, None]\<rparr>,
            aw_writer = [], aw_done = True, aw_pool = []\<rparr> [7] = Some (Inr ((1, None), aw')) \<and>
      data e = [7] \<and> rb_holds (aw_rb aw') [e] \<and> aw_writer aw' = []) \<and>
   rb_holds \<lparr>mask_rb = 1, head = 1, tail = 0, buffer = [Some \<lparr>data = [5], data_cap = 1\<rparr>, None]\<rparr>
     [\<lparr>data = [5], data_cap = 1\<rparr>] \<and>
   (\<exists>aw'. Write \<lparr>aw_rb = \<lparr>mask_rb = 1, head = 1, tail = 0,
                           buffer = [Some \<lparr>data = [5], data_cap = 1\<rparr>, None]\<rparr>,
            aw_writer = [], aw_done = True, aw_pool = []\<rparr> [7] =
        Some (Inr ((0, Some ErrClosedPipe), aw')) \<and>
      aw_rb aw' = \<lparr>mask_rb = 1, head = 1, tail = 0,
                    buffer = [Some \<lparr>data = [5], data_cap = 1\<rparr>, None]\<rparr> \<and>
      aw_writer aw' = [])"
proof -
  define A where "A = \<lparr>aw_rb = \<lparr>mask_rb = 1, head = 0, tail = 0, buffer = [None, None]\<rparr>,
            aw_writer = [], aw_done = True, aw_pool = []\<rparr>"
  define E where "E = \<lparr>data = [5], data_cap = 1\<rparr>"
  define B where "B = \<lparr>aw_rb = \<lparr>mask_rb = 1, head = 1, tail = 0, buffer = [Some E, None]\<rparr>,
            aw_writer = [], aw_done = True, aw_pool = []\<rparr>"
  have k: "\<exists>k\<le>62. Suc (Suc 0) = 2 ^ k \<and> mask k = (1 :: 64 word)"
    by (intro exI [of _ 1]) simp
  have ha: "rb_holds (aw_rb A) []"
    unfolding rb_holds_def A_def using k by (simp add: expected_slot_def Let_def mod_Suc)
  have hb: "rb_holds (aw_rb B) [E]"
    unfolding rb_holds_def B_def using k by (simp add: expected_slot_def Let_def mod_Suc)
  have da: "aw_done A" by (simp add: A_def)
  have db: "aw_done B" by (simp add: B_def)
  from Write_after_Close [OF da ha, of "[7]"]
  have a: "\<exists>aw' e. Write A [7] = Some (Inr ((1, None), aw')) \<and>
      data e = [7] \<and> rb_holds (aw_rb aw') [e] \<and> aw_writer aw' = []"
    by (simp add: A_def)
  from Write_after_Close [OF db hb, of "[7]"]
  have b: "\<exists>aw'. Write B [7] = Some (Inr ((0, Some ErrClosedPipe), aw')) \<and>
      aw_rb aw' = aw_rb B \<and> aw_writer aw' = []"
    by (simp add: B_def)
  from da ha a hb b show ?thesis
    by (simp add: A_def B_def E_def)
qed
section \<open>Buffer pool: proofs\<close>

lemma len64tab_length: "length len64tab = 64"
  by (simp add: len64tab_def)

lemma len64tab_bounds: "i < 64 \<Longrightarrow> 58 \<le> len64tab ! i \<and> len64tab ! i \<le> 64"
proof -
  have "list_all (\<lambda>v. 58 \<le> v \<and> v \<le> 64) len64tab"
    by (simp add: len64tab_def)
  then show "i < 64 \<Longrightarrow> 58 \<le> len64tab ! i \<and> len64tab ! i \<le> 64"
    by (simp add: list_all_length len64tab_length)
qed

lemma unat_and_3f: "unat ((y :: 64 word) AND 0x3f) < 64"
proof -
  have "unat (y AND 0x3f) \<le> unat (0x3f :: 64 word)"
    by (rule word_and_le1 [THEN word_le_nat_alt [THEN iffD1]])
  then show ?thesis by simp
qed

lemma unat_drop_bit_58: "unat (drop_bit 58 (x :: 64 word)) < 64"
proof -
  have "unat (drop_bit 58 x) = unat x div 2 ^ 58"
    by (simp add: drop_bit_eq_div unat_div)
  moreover have "unat x < 2 ^ 64" using unsigned_less [of x] by simp
  ultimately show ?thesis by simp
qed

lemma leadingZeros64_ge: "464 \<le> leadingZeros64 x"
  unfolding leadingZeros64_def
  using len64tab_bounds [OF unat_drop_bit_58 [of x]]
    len64tab_bounds [OF unat_and_3f [of "drop_bit 52 x"]]
    len64tab_bounds [OF unat_and_3f [of "drop_bit 46 x"]]
    len64tab_bounds [OF unat_and_3f [of "drop_bit 40 x"]]
    len64tab_bounds [OF unat_and_3f [of "drop_bit 34 x"]]
    len64tab_bounds [OF unat_and_3f [of "drop_bit 28 x"]]
    len64tab_bounds [OF unat_and_3f [of "drop_bit 22 x"]]
    len64tab_bounds [OF unat_and_3f [of "drop_bit 16 x"]]
  by linarith

text \<open>
  \<^bold>\<open>Claim C4\<close> on the code. Each of the eight look-ups returns at least 58, so
  \<open>leadingZeros64\<close> returns at least 464 (512 for an argument below \<open>2 ^ 16\<close>), \<open>bits\<close>
  is negative and the index is clamped to 0 for every requested size: 0 for 65 where the
  claim says 1, and 0 for 8192 where it says 7.
\<close>

theorem size_class_index_always_zero: "size_class_index s = 0"
  using leadingZeros64_ge [of "word_of_int ((if s \<le> 0 then 64 else s) - 1)"]
  by (simp add: size_class_index_def Let_def)

lemma BufferPool_Put_drops: "BufferPool_Put bp buf = (buf\<lparr>buf_len := 0\<rparr>, bp)"
proof (cases "backing buf = []")
  case True
  then show ?thesis by (simp add: BufferPool_Put_def)
next
  case False
  from leadingZeros64_ge [of "word_of_int (int (length (backing buf)) - 1)"]
  have "64 - leadingZeros64 (word_of_int (int (length (backing buf)) - 1)) - 6 < 0" by simp
  then show ?thesis by (simp add: BufferPool_Put_def Let_def)
qed

lemma leadingZeros64_63: "leadingZeros64 63 = 512"
  by (simp add: leadingZeros64_def len64tab_def)

text \<open>
  \<^bold>\<open>Claim C3\<close> on the code, at the class boundary 64. \<open>Put\<close> computes a negative index for
  every capacity, so it never hands a buffer to a class pool. On a new pool, \<open>Get 64\<close>
  allocates a buffer of capacity 64; \<open>Put\<close> of that buffer leaves every free list empty;
  the next \<open>Get 64\<close> allocates again: a different slice object and a different array.
\<close>

theorem BufferPool_Put_then_Get_allocates:
  "(let (b1, bp1) = BufferPool_Get NewBufferPool 64;
        (b1', bp2) = BufferPool_Put bp1 b1;
        (b2, bp3) = BufferPool_Get bp2 64
    in length (backing b1) = 64 \<and> pools bp2 = replicate 20 [] \<and>
       buf_id b1 = 0 \<and> arr_id b1 = 1 \<and> buf_id b2 = 2 \<and> arr_id b2 = 3 \<and>
       length (backing b2) = 64)"
  by (simp add: BufferPool_Get_def NewBufferPool_def size_class_index_always_zero
      BufferPool_Put_drops Let_def)
section \<open>Decoder: proofs\<close>

lemma le_bytes_Suc: "le_bytes (Suc n) w = ucast w # le_bytes n (drop_bit 8 w)"
proof -
  have "[0..<Suc n] = 0 # map Suc [0..<n]"
    by (simp add: upt_conv_Cons map_Suc_upt del: upt_Suc)
  then show ?thesis
    by (simp add: le_bytes_def comp_def drop_bit_drop_bit ac_simps del: upt_Suc)
qed

lemma take_bit_split8:
  fixes w :: "'a::len word"
  shows "push_bit 8 (take_bit m (drop_bit 8 w)) OR take_bit 8 w = take_bit (m + 8) w"
  by (rule bit_word_eqI) (auto simp add: bit_simps)

lemma le_word_le_bytes: "le_word (le_bytes n w) = (take_bit (8 * n) w :: 'a::len word)"
proof (induction n arbitrary: w)
  case 0
  then show ?case by (simp add: le_word_def le_bytes_def)
next
  case (Suc n)
  have "le_word (le_bytes (Suc n) w) =
      (push_bit 8 (le_word (le_bytes n (drop_bit 8 w))) OR ucast (ucast w :: byte) :: 'a word)"
    by (simp add: le_bytes_Suc le_word_def)
  also have "(ucast (ucast w :: byte) :: 'a word) = take_bit 8 w"
    by (rule bit_word_eqI) (auto simp add: bit_simps)
  finally show ?case by (simp add: Suc.IH take_bit_split8 add.commute)
qed

lemma be_word_rev: "be_word bs = le_word (rev bs)"
  by (simp add: be_word_def le_word_def foldl_conv_foldr)

lemma be_word_be_bytes: "be_word (be_bytes n w) = (take_bit (8 * n) w :: 'a::len word)"
  by (simp add: be_word_rev be_bytes_def le_word_le_bytes)

lemma be_word_be_bytes_8: "be_word (be_bytes 8 w) = (w :: 64 word)"
proof -
  have "take_bit 64 w = w" by (rule take_bit_word_eq_self) simp
  then show ?thesis by (simp add: be_word_be_bytes)
qed

lemma be_word_8_literal:
  "be_word [b0, b1, b2, b3, b4, b5, b6, b7] =
     (push_bit 56 (ucast b0) OR push_bit 48 (ucast b1) OR push_bit 40 (ucast b2) OR
      push_bit 32 (ucast b3) OR push_bit 24 (ucast b4) OR push_bit 16 (ucast b5) OR
      push_bit 8 (ucast b6) OR ucast b7 :: 64 word)"
  by (simp add: be_word_def push_bit_or ac_simps)

lemma be_bytes_8_literal: "be_bytes 8 (w :: 64 word) =
  [ucast (drop_bit 56 w), ucast (drop_bit 48 w), ucast (drop_bit 40 w), ucast (drop_bit 32 w),
   ucast (drop_bit 24 w), ucast (drop_bit 16 w), ucast (drop_bit 8 w), ucast w]"
  by (simp add: be_bytes_def le_bytes_def upt_rec)

lemma length_le_bytes: "length (le_bytes n w) = n"
  by (simp add: le_bytes_def)

lemma byte_at_ok: "0 \<le> i \<Longrightarrow> i < int (length b) \<Longrightarrow> byte_at b i = Inr (b ! nat i)"
  by (simp add: byte_at_def)

lemma bytes_at_ok:
  "0 \<le> i \<Longrightarrow> i + int n \<le> int (length b) \<Longrightarrow> bytes_at b i n = Inr (take n (drop (nat i) b))"
  by (simp add: bytes_at_def)

lemma slice_ok:
  "0 \<le> i \<Longrightarrow> i \<le> j \<Longrightarrow> j \<le> int (length b) \<Longrightarrow>
     slice b i j = Inr (take (nat (j - i)) (drop (nat i) b))"
  by (simp add: slice_def)

lemma unsafe_load_ok:
  "0 \<le> i \<Longrightarrow> 0 < n \<Longrightarrow> i + int n \<le> int (length b) \<Longrightarrow>
     unsafe_load b i n = Inr (take n (drop (nat i) b))"
  by (simp add: unsafe_load_def)

lemma bind_f_Inr [simp]: "bind_f (Inr x) k = k x"
  by (simp add: bind_f_def)

lemma bind_f_Inl [simp]: "bind_f (Inl e) k = Inl e"
  by (simp add: bind_f_def)

lemma escape_scan4_ok:
  "0 \<le> i \<Longrightarrow> \<exists>j ne hs. escape_scan4 s i h = Inr (j, ne, hs) \<and> 0 \<le> j"
proof (induction s i h rule: escape_scan4.induct)
  case (1 s i hasSpace)
  show ?case
  proof (cases "i + 4 \<le> int (length s)")
    case False
    then show ?thesis using "1.prems" by (subst escape_scan4.simps) auto
  next
    case True
    have r: "byte_at s i = Inr (s ! nat i)" "byte_at s (i + 1) = Inr (s ! nat (i + 1))"
      "byte_at s (i + 2) = Inr (s ! nat (i + 2))" "byte_at s (i + 3) = Inr (s ! nat (i + 3))"
      using True "1.prems" by (simp_all add: byte_at_ok)
    show ?thesis
    proof (cases "needs_escape (s ! nat i) \<or> needs_escape (s ! nat (i + 1)) \<or>
        needs_escape (s ! nat (i + 2)) \<or> needs_escape (s ! nat (i + 3))")
      case True
      then show ?thesis using \<open>i + 4 \<le> int (length s)\<close> "1.prems" r
        by (subst escape_scan4.simps) auto
    next
      case False
      have "0 \<le> i + 4" using "1.prems" by simp
      from "1.IH" [OF True r(1) _ r(2) _ r(3) _ r(4) _ this] False
      obtain j ne hs where
        "escape_scan4 s (i + 4)
           (if s ! nat i = 0x20 \<or> s ! nat (i + 1) = 0x20 \<or> s ! nat (i + 2) = 0x20 \<or>
               s ! nat (i + 3) = 0x20 then True else hasSpace) = Inr (j, ne, hs)" "0 \<le> j"
        by auto
      then show ?thesis using True False r
        by (subst escape_scan4.simps) simp
    qed
  qed
qed

lemma escape_scan1_ok:
  "0 \<le> i \<Longrightarrow> \<exists>ne hs. escape_scan1 s i h = Inr (ne, hs)"
proof (induction s i h rule: escape_scan1.induct)
  case (1 s i hasSpace)
  show ?case
  proof (cases "i < int (length s)")
    case False
    then show ?thesis by (subst escape_scan1.simps) auto
  next
    case True
    have r: "byte_at s i = Inr (s ! nat i)" using True "1.prems" by (simp add: byte_at_ok)
    show ?thesis
    proof (cases "needs_escape (s ! nat i)")
      case True
      then show ?thesis using \<open>i < int (length s)\<close> r by (subst escape_scan1.simps) auto
    next
      case False
      have "0 \<le> i + 1" using "1.prems" by simp
      from "1.IH" [OF True r False this] obtain ne hs where
        "escape_scan1 s (i + 1) (if s ! nat i = 0x20 then True else hasSpace) = Inr (ne, hs)"
        by blast
      then show ?thesis using True False r by (subst escape_scan1.simps) simp
    qed
  qed
qed

lemma foldl_append_acc:
  "foldl (\<lambda>acc c. acc @ f c) (buf @ pre) s = buf @ foldl (\<lambda>acc c. acc @ f c) pre s"
  by (induction s arbitrary: pre) simp_all

lemma escapeStringOptimized_ok: "escapeStringOptimized buf s = Inr (buf @ escaped_text s)"
proof -
  from escape_scan4_ok [of 0 s False] obtain j ne hs where
    s4: "escape_scan4 s 0 False = Inr (j, ne, hs)" and j: "0 \<le> j" by auto
  from escape_scan1_ok [OF j, of s hs] obtain ne1 hs1 where
    s1: "escape_scan1 s j hs = Inr (ne1, hs1)" by blast
  have f: "foldl (\<lambda>buf c. buf @ escape_byte c) (buf @ [0x22]) s =
      buf @ foldl (\<lambda>buf c. buf @ escape_byte c) [0x22] s" for buf
    using foldl_append_acc [of escape_byte buf "[0x22]" s] by simp
  show ?thesis
    unfolding escaped_text_def
    by (cases ne) (simp_all add: escapeStringOptimized_def s4 s1 f [of buf] f [of "[]"])
qed

lemma decodeFieldValueBuf_ok:
  assumes "0 \<le> pos"
  shows "\<exists>buf' pos'. decodeFieldValueBuf ext buf b pos ft = Inr (buf', pos') \<and> pos \<le> pos'"
proof -
  have r8: "\<not> int (length b) - pos < 8 \<Longrightarrow> bytes_at b pos 8 = Inr (take 8 (drop (nat pos) b))"
    using assms by (intro bytes_at_ok) simp_all
  have r4: "\<not> int (length b) - pos < 4 \<Longrightarrow> bytes_at b pos 4 = Inr (take 4 (drop (nat pos) b))"
    using assms by (intro bytes_at_ok) simp_all
  have r2: "\<not> int (length b) - pos < 2 \<Longrightarrow> bytes_at b pos 2 = Inr (take 2 (drop (nat pos) b))"
    using assms by (intro bytes_at_ok) simp_all
  have sl: "\<not> int (length b) - pos < 2 + uint n \<Longrightarrow>
      slice b (pos + 2) (pos + 2 + uint n) =
        Inr (take (nat (uint n)) (drop (nat (pos + 2)) b))" for n :: "16 word"
    using assms by (subst slice_ok) simp_all
  show ?thesis
    unfolding decodeFieldValueBuf_def
    by (simp add: r8 r4 r2 sl Let_def escapeStringOptimized_ok)
qed

lemmas FieldType_defs = FieldTypeInt_def FieldTypeUint_def FieldTypeFloat32_def
  FieldTypeFloat64_def FieldTypeString_def FieldTypeBool_def FieldTypeBytes_def

lemma decodeFieldValueBuf_short8:
  assumes "ft = FieldTypeInt \<or> ft = FieldTypeUint \<or> ft = FieldTypeBool \<or> ft = FieldTypeFloat64"
    and "int (length b) - pos < 8"
  shows "decodeFieldValueBuf ext buf b pos ft = Inr (buf @ ascii ''?'', pos + 8)"
  using assms(1)
  by (elim disjE) (simp_all add: decodeFieldValueBuf_def FieldType_defs assms(2))

lemma decodeFieldValueBuf_short4:
  assumes "ft = FieldTypeFloat32" and "int (length b) - pos < 4"
  shows "decodeFieldValueBuf ext buf b pos ft = Inr (buf @ ascii ''?'', pos + 4)"
  by (simp add: decodeFieldValueBuf_def FieldType_defs assms)

lemma decodeFieldValueBuf_short2:
  assumes "ft = FieldTypeString \<or> ft = FieldTypeBytes" and "int (length b) - pos < 2"
  shows "decodeFieldValueBuf ext buf b pos ft = Inr (buf @ ascii ''?'', pos + 2)"
  using assms(1)
  by (elim disjE) (simp_all add: decodeFieldValueBuf_def FieldType_defs assms(2))

lemma decodeFieldValueBuf_short_payload:
  assumes "0 \<le> pos" and "ft = FieldTypeString \<or> ft = FieldTypeBytes"
    and "2 \<le> int (length b) - pos"
    and "int (length b) - pos < 2 + uint (be_word (take 2 (drop (nat pos) b)) :: 16 word)"
  shows "decodeFieldValueBuf ext buf b pos ft =
         Inr (buf @ ascii ''?'', pos + 2 + uint (be_word (take 2 (drop (nat pos) b)) :: 16 word))"
proof -
  have r: "bytes_at b pos 2 = Inr (take 2 (drop (nat pos) b))"
    using assms(1,3) by (intro bytes_at_ok) simp_all
  have n: "\<not> int (length b) - pos < 2" using assms(3) by simp
  show ?thesis
    using assms(2)
    by (elim disjE) (simp_all add: decodeFieldValueBuf_def FieldType_defs r n assms(4) Let_def)
qed

text \<open>
  \<^bold>\<open>Claim C9.\<close> For a cursor \<open>pos\<close> that is not negative, \<open>decodeFieldValueBuf\<close> always
  returns a buffer and a cursor, never a fault. When fewer than eight bytes remain for an
  Int, Uint, Bool or Float64 value, or fewer than four for a Float32 value, it appends
  \<open>?\<close> and returns the cursor advanced by eight, or four. When the two-byte big-endian
  length prefix of a String or Bytes value can be read and declares more bytes than
  remain after it, it appends \<open>?\<close> and returns the cursor advanced by two plus the declared
  length; when not even the prefix fits, it appends \<open>?\<close> and advances by two.
\<close>

theorem decodeFieldValueBuf_defensive:
  assumes "0 \<le> pos"
  shows "(\<exists>r. decodeFieldValueBuf ext buf b pos ft = Inr r) \<and>
    ((ft = FieldTypeInt \<or> ft = FieldTypeUint \<or> ft = FieldTypeBool \<or> ft = FieldTypeFloat64) \<and>
       int (length b) - pos < 8 \<longrightarrow>
       decodeFieldValueBuf ext buf b pos ft = Inr (buf @ ascii ''?'', pos + 8)) \<and>
    (ft = FieldTypeFloat32 \<and> int (length b) - pos < 4 \<longrightarrow>
       decodeFieldValueBuf ext buf b pos ft = Inr (buf @ ascii ''?'', pos + 4)) \<and>
    ((ft = FieldTypeString \<or> ft = FieldTypeBytes) \<and> 2 \<le> int (length b) - pos \<and>
       int (length b) - pos < 2 + uint (be_word (take 2 (drop (nat pos) b)) :: 16 word) \<longrightarrow>
       decodeFieldValueBuf ext buf b pos ft =
         Inr (buf @ ascii ''?'', pos + 2 + uint (be_word (take 2 (drop (nat pos) b)) :: 16 word))) \<and>
    ((ft = FieldTypeString \<or> ft = FieldTypeBytes) \<and> int (length b) - pos < 2 \<longrightarrow>
       decodeFieldValueBuf ext buf b pos ft = Inr (buf @ ascii ''?'', pos + 2))"
proof (intro conjI impI)
  show "\<exists>r. decodeFieldValueBuf ext buf b pos ft = Inr r"
    using decodeFieldValueBuf_ok [OF assms, of ext buf b ft] by blast
next
  assume "(ft = FieldTypeInt \<or> ft = FieldTypeUint \<or> ft = FieldTypeBool \<or> ft = FieldTypeFloat64) \<and>
       int (length b) - pos < 8"
  then show "decodeFieldValueBuf ext buf b pos ft = Inr (buf @ ascii ''?'', pos + 8)"
    by (intro decodeFieldValueBuf_short8) simp_all
next
  assume "ft = FieldTypeFloat32 \<and> int (length b) - pos < 4"
  then show "decodeFieldValueBuf ext buf b pos ft = Inr (buf @ ascii ''?'', pos + 4)"
    by (intro decodeFieldValueBuf_short4) simp_all
next
  assume a: "(ft = FieldTypeString \<or> ft = FieldTypeBytes) \<and> 2 \<le> int (length b) - pos \<and>
       int (length b) - pos < 2 + uint (be_word (take 2 (drop (nat pos) b)) :: 16 word)"
  then show "decodeFieldValueBuf ext buf b pos ft =
         Inr (buf @ ascii ''?'', pos + 2 + uint (be_word (take 2 (drop (nat pos) b)) :: 16 word))"
    using assms by (intro decodeFieldValueBuf_short_payload) simp_all
next
  assume "(ft = FieldTypeString \<or> ft = FieldTypeBytes) \<and> int (length b) - pos < 2"
  then show "decodeFieldValueBuf ext buf b pos ft = Inr (buf @ ascii ''?'', pos + 2)"
    by (intro decodeFieldValueBuf_short2) simp_all
qed

lemma Write_fields_ok:
  assumes "0 \<le> pos"
  shows "\<exists>buf'. Write_fields ext color level b n i buf pos = Inr buf'"
  using assms
proof (induction n arbitrary: i buf pos)
  case 0
  then show ?case by simp
next
  case (Suc n)
  show ?case
  proof (cases "pos < int (length b)")
    case False
    then show ?thesis by simp
  next
    case True
    define buf1 where "buf1 = (if i > 0 then buf @ ascii '' '' else buf)"
    define keyLen where "keyLen = uint (b ! nat pos)"
    have kl: "byte_at b pos = Inr (b ! nat pos)" using True Suc.prems by (simp add: byte_at_ok)
    have k0: "0 \<le> keyLen" by (simp add: keyLen_def)
    show ?thesis
    proof (cases "pos + 1 + keyLen > int (length b) \<or> pos + 1 + keyLen \<ge> int (length b)")
      case True
      then show ?thesis using \<open>pos < int (length b)\<close> kl
        by (auto simp add: Let_def keyLen_def)
    next
      case False
      then have lt: "pos + 1 + keyLen < int (length b)" by simp
      have ft: "byte_at b (pos + 1 + keyLen) = Inr (b ! nat (pos + 1 + keyLen))"
        using lt Suc.prems k0 by (intro byte_at_ok) simp_all
      have ky: "slice b (pos + 1) (pos + 1 + keyLen) =
          Inr (take (nat keyLen) (drop (nat (pos + 1)) b))"
        using lt Suc.prems k0 by (subst slice_ok) simp_all
      define key where "key = take (nat keyLen) (drop (nat (pos + 1)) b)"
      define buf2 where "buf2 = (if color \<and> level < 5
          then buf1 @ levelColors ! unat level @ key @ colorResetBytes @ ascii ''=''
          else buf1 @ key @ ascii ''='')"
      have "0 \<le> pos + 1 + keyLen + 1" using Suc.prems k0 by simp
      from decodeFieldValueBuf_ok [OF this, of ext buf2 b "b ! nat (pos + 1 + keyLen)"]
      obtain buf3 pos3 where
        d: "decodeFieldValueBuf ext buf2 b (pos + 1 + keyLen + 1) (b ! nat (pos + 1 + keyLen)) =
            Inr (buf3, pos3)" and p3: "pos + 1 + keyLen + 1 \<le> pos3" by blast
      have "0 \<le> pos3" using p3 Suc.prems k0 by simp
      from Suc.IH [OF this, of "i + 1" buf3] obtain buf' where
        "Write_fields ext color level b n (i + 1) buf3 pos3 = Inr buf'" by blast
      then show ?thesis using \<open>pos < int (length b)\<close> kl lt ft ky d
        by (simp add: Let_def keyLen_def [symmetric] buf1_def [symmetric] key_def [symmetric]
            buf2_def [symmetric])
    qed
  qed
qed

lemma Write_header_eq:
  "Write_header b =
     (if int (length b) < 16 then Inr (Inl EntryTooShort)
      else if le_word (take 4 b) \<noteq> MagicHeader then Inr (Inl InvalidMagicHeader)
      else if 0 < uint (le_word (take 2 (drop 14 b)) :: 16 word) \<and>
              16 + uint (le_word (take 2 (drop 14 b)) :: 16 word) \<le> int (length b)
      then Inr (Inr (b ! 5, le_word (take 8 (drop 6 b)),
                     uint (le_word (take 2 (drop 14 b)) :: 16 word), 16))
      else if 23 \<le> int (length b)
      then (if 23 + uint (b ! 22) \<le> int (length b)
            then Inr (Inr (b ! 5, le_word (take 8 (drop 14 b)), uint (b ! 22), 23))
            else Inr (Inl CannotDetermineFormat))
      else Inr (Inl MessageTruncated))"
proof (cases "int (length b) < 16")
  case True
  then show ?thesis by (simp add: Write_header_def)
next
  case False
  have m: "unsafe_load b 0 4 = Inr (take 4 b)"
    using False by (subst unsafe_load_ok) simp_all
  have l: "byte_at b 5 = Inr (b ! 5)" using False by (subst byte_at_ok) simp_all
  have l2: "unsafe_load b 14 2 = Inr (take 2 (drop 14 b))"
    using False by (subst unsafe_load_ok) simp_all
  have t6: "unsafe_load b 6 8 = Inr (take 8 (drop 6 b))"
    using False by (subst unsafe_load_ok) simp_all
  have t14: "23 \<le> int (length b) \<Longrightarrow> unsafe_load b 14 8 = Inr (take 8 (drop 14 b))"
    by (subst unsafe_load_ok) simp_all
  have l1: "23 \<le> int (length b) \<Longrightarrow> byte_at b 22 = Inr (b ! 22)"
    by (subst byte_at_ok) simp_all
  have u: "uint (w :: 16 word) \<le> 65535" for w
    using uint_bounded [of w] by simp
  show ?thesis
    using False by (simp add: Write_header_def m l l2 t6 t14 l1 u Let_def)
qed

lemma Write_header_bounds:
  assumes "Write_header b = Inr (Inr (level, timestamp, msgLen, msgStart))"
  shows "0 \<le> msgLen \<and> 0 < msgStart \<and> msgStart + msgLen \<le> int (length b)"
proof (cases "0 < uint (le_word (take 2 (drop 14 b)) :: 16 word) \<and>
              16 + uint (le_word (take 2 (drop 14 b)) :: 16 word) \<le> int (length b)")
  case True
  with assms show ?thesis
    by (simp add: Write_header_eq split: if_splits)
next
  case False
  with assms show ?thesis
    by (simp add: Write_header_eq split: if_splits) auto
qed

lemma Write_header_ok: "\<exists>r. Write_header b = Inr r"
  unfolding Write_header_eq by simp

lemma Write_message_ok:
  assumes "0 \<le> msgLen" "0 < msgStart" "msgStart + msgLen \<le> int (length b)"
  shows "Write_message b msgStart (if msgLen > 0 then msgStart + msgLen else 0) buf =
     Inr (buf @ take (nat msgLen) (drop (nat msgStart) b))"
proof (cases "msgLen > 0")
  case True
  have "slice b msgStart (msgStart + msgLen) = Inr (take (nat msgLen) (drop (nat msgStart) b))"
    using assms True by (subst slice_ok) simp_all
  with True show ?thesis by (simp add: Write_message_def)
next
  case False
  with assms show ?thesis by (simp add: Write_message_def)
qed

lemma Write_field_block_ok:
  assumes "0 \<le> pos"
  shows "\<exists>buf'. Write_field_block ext color level b pos buf = Inr buf'"
proof (cases "pos < int (length b)")
  case True
  have "byte_at b pos = Inr (b ! nat pos)" using True assms by (subst byte_at_ok) simp_all
  moreover have "0 \<le> pos + 1" using assms by simp
  from Write_fields_ok [OF this, of ext color level b "unat (b ! nat pos)" 0 buf]
  obtain buf' where "Write_fields ext color level b (unat (b ! nat pos)) 0 buf (pos + 1) = Inr buf'"
    by blast
  ultimately show ?thesis using True by (simp add: Write_field_block_def)
next
  case False
  then show ?thesis by (simp add: Write_field_block_def)
qed

lemma Write_line_ok: "\<exists>r. Write_line ext color b = Inr r"
proof -
  from Write_header_ok [of b] obtain r where h: "Write_header b = Inr r" by blast
  show ?thesis
  proof (cases r)
    case (Inl err)
    with h show ?thesis by (simp add: Write_line_def)
  next
    case (Inr hd)
    obtain level timestamp msgLen msgStart where hd: "hd = (level, timestamp, msgLen, msgStart)"
      by (cases hd) auto
    have h': "Write_header b = Inr (Inr (level, timestamp, msgLen, msgStart))"
      using h Inr hd by simp
    from Write_header_bounds [OF h']
    have bd: "0 \<le> msgLen" "0 < msgStart" "msgStart + msgLen \<le> int (length b)" by simp_all
    note m = Write_message_ok [OF bd]
    have "0 \<le> msgStart + msgLen" using bd by simp
    note f = Write_field_block_ok [OF this, of ext color level b]
    show ?thesis
      unfolding Write_line_def h' using f by (simp add: Let_def m) (metis bind_f_Inr)
  qed
qed

text \<open>
  \<^bold>\<open>Claim C8.\<close> For every byte slice, \<open>Write\<close> returns one of its errors or hands a rendered
  line to the output and returns the length of the input. A fault, the value of this
  model for an index or a slice bound out of range (in the input, in a key or in a value),
  is never the result.
\<close>

theorem TerminalWriter_Write_total:
  "(\<exists>err. TerminalWriter_Write ext w b = Inr (Inl err)) \<or>
   (\<exists>line. TerminalWriter_Write ext w b = Inr (Inr (int (length b), w\<lparr>out := out w @ [line]\<rparr>)))"
proof -
  from Write_line_ok [of ext "useColor w" b] obtain r where
    r: "Write_line ext (useColor w) b = Inr r" by blast
  show ?thesis by (cases r) (auto simp add: TerminalWriter_Write_def r)
qed

theorem decodeFieldValueBuf_defensive_witness:
  "decodeFieldValueBuf \<lparr>format_time = (\<lambda>t. []), format_float32 = (\<lambda>f. []), format_float64 = (\<lambda>f. [])\<rparr>
     [0x3d] [0, 0, 0] 0 FieldTypeInt = Inr ([0x3d, 0x3f], 8) \<and>
   decodeFieldValueBuf \<lparr>format_time = (\<lambda>t. []), format_float32 = (\<lambda>f. []), format_float64 = (\<lambda>f. [])\<rparr>
     [0x3d] [9, 0, 0, 0] 1 FieldTypeFloat32 = Inr ([0x3d, 0x3f], 5) \<and>
   decodeFieldValueBuf \<lparr>format_time = (\<lambda>t. []), format_float32 = (\<lambda>f. []), format_float64 = (\<lambda>f. [])\<rparr>
     [0x3d] [0, 5, 0x61, 0x62] 0 FieldTypeString = Inr ([0x3d, 0x3f], 7) \<and>
   decodeFieldValueBuf \<lparr>format_time = (\<lambda>t. []), format_float32 = (\<lambda>f. []), format_float64 = (\<lambda>f. [])\<rparr>
     [0x3d] [7, 1] 1 FieldTypeBytes = Inr ([0x3d, 0x3f], 3)"
proof -
  define ext where
    "ext = \<lparr>format_time = (\<lambda>t :: 64 word. [] :: bytes), format_float32 = (\<lambda>f :: 32 word. [] :: bytes),
            format_float64 = (\<lambda>f :: 64 word. [] :: bytes)\<rparr>"
  have p0: "(0 :: int) \<le> 0" and p1: "(0 :: int) \<le> 1" by simp_all
  have a: "decodeFieldValueBuf ext [0x3d] [0, 0, 0] 0 FieldTypeInt = Inr ([0x3d, 0x3f], 8)"
    using decodeFieldValueBuf_defensive [OF p0, of ext "[0x3d]" "[0, 0, 0]" FieldTypeInt]
    by (simp add: ascii_def)
  have b: "decodeFieldValueBuf ext [0x3d] [9, 0, 0, 0] 1 FieldTypeFloat32 = Inr ([0x3d, 0x3f], 5)"
    using decodeFieldValueBuf_defensive [OF p1, of ext "[0x3d]" "[9, 0, 0, 0]" FieldTypeFloat32]
    by (simp add: ascii_def)
  have c: "decodeFieldValueBuf ext [0x3d] [0, 5, 0x61, 0x62] 0 FieldTypeString = Inr ([0x3d, 0x3f], 7)"
    using decodeFieldValueBuf_defensive [OF p0, of ext "[0x3d]" "[0, 5, 0x61, 0x62]" FieldTypeString]
    by (simp add: ascii_def be_word_def)
  have d: "decodeFieldValueBuf ext [0x3d] [7, 1] 1 FieldTypeBytes = Inr ([0x3d, 0x3f], 3)"
    using decodeFieldValueBuf_defensive [OF p1, of ext "[0x3d]" "[7, 1]" FieldTypeBytes]
    by (simp add: ascii_def)
  from a b c d show ?thesis by (simp add: ext_def)
qed

text \<open>
  \<^bold>\<open>Claim C10\<close>, as amended. An input of at least 16 bytes with the magic number whose two
  bytes at offset 14 are zero is never taken for a basic record. It is taken for a
  structured one (message length from the byte at offset 22, timestamp from offset 14,
  message from offset 23) exactly when it has at least 23 bytes and at least 23 plus that
  length byte; a longer declared message is the error "cannot determine format", and an
  input shorter than 23 bytes the error "message truncated".
\<close>

theorem Write_header_empty_basic_message:
  assumes "16 \<le> int (length b)" and "le_word (take 4 b) = MagicHeader"
    and "le_word (take 2 (drop 14 b)) = (0 :: 16 word)"
  shows "Write_header b =
     (if 23 \<le> int (length b) \<and> 23 + uint (b ! 22) \<le> int (length b)
      then Inr (Inr (b ! 5, le_word (take 8 (drop 14 b)), uint (b ! 22), 23))
      else if 23 \<le> int (length b) then Inr (Inl CannotDetermineFormat)
      else Inr (Inl MessageTruncated))"
  using assms by (simp add: Write_header_eq)

theorem Write_header_empty_basic_message_witness:
  "Write_header ([0x47, 0x4F, 0x4C, 0x5A, 1, 1, 0, 0, 0, 0, 0, 0, 0, 0, 0, 0, 0, 0, 0, 0, 0, 0, 2, 0x68, 0x69, 0]) =
     Inr (Inr (1, 0, 2, 23)) \<and>
   Write_header ([0x47, 0x4F, 0x4C, 0x5A, 1, 1, 0, 0, 0, 0, 0, 0, 0, 0, 0, 0]) = Inr (Inl MessageTruncated)"
proof -
  have "Write_header ([0x47, 0x4F, 0x4C, 0x5A, 1, 1, 0, 0, 0, 0, 0, 0, 0, 0, 0, 0, 0, 0, 0, 0, 0, 0, 2, 0x68, 0x69, 0]) =
     Inr (Inr (1, 0, 2, 23))"
    using Write_header_empty_basic_message
      [of "[0x47, 0x4F, 0x4C, 0x5A, 1, 1, 0, 0, 0, 0, 0, 0, 0, 0, 0, 0, 0, 0, 0, 0, 0, 0, 2, 0x68, 0x69, 0]"]
    by (simp add: le_word_def MagicHeader_def)
  moreover have "Write_header ([0x47, 0x4F, 0x4C, 0x5A, 1, 1, 0, 0, 0, 0, 0, 0, 0, 0, 0, 0]) =
      Inr (Inl MessageTruncated)"
    using Write_header_empty_basic_message [of "[0x47, 0x4F, 0x4C, 0x5A, 1, 1, 0, 0, 0, 0, 0, 0, 0, 0, 0, 0]"]
    by (simp add: le_word_def MagicHeader_def)
  ultimately show ?thesis by simp
qed

text \<open>
  Claim C10 as stated fails: 23 bytes with the magic number, zero at offset 14 and the
  length byte 5 at offset 22 are at least 23 bytes long and are not decoded as a structured
  record; \<open>Write\<close> rejects them.
\<close>

theorem Write_header_23_bytes_rejected:
  "length ([0x47, 0x4F, 0x4C, 0x5A, 1, 1, 0, 0, 0, 0, 0, 0, 0, 0, 0, 0, 0, 0, 0, 0, 0, 0, 5 :: byte]) = 23 \<and>
   Write_header ([0x47, 0x4F, 0x4C, 0x5A, 1, 1, 0, 0, 0, 0, 0, 0, 0, 0, 0, 0, 0, 0, 0, 0, 0, 0, 5]) =
     Inr (Inl CannotDetermineFormat)"
  by (simp add: Write_header_eq le_word_def MagicHeader_def)

section \<open>Encoders: proofs\<close>

lemma length_overwrite: "p + length src \<le> length buf \<Longrightarrow> length (overwrite buf p src) = length buf"
  by (simp add: overwrite_def)

lemma take_overwrite: "p \<le> length buf \<Longrightarrow> take p (overwrite buf p src) = take p buf"
  by (simp add: overwrite_def)

lemma overwrite_Nil [simp]: "p \<le> length buf \<Longrightarrow> overwrite buf p [] = buf"
  by (simp add: overwrite_def)

lemma overwrite_overwrite:
  assumes "p + length a + length b \<le> length buf"
  shows "overwrite (overwrite buf p a) (p + length a) b = overwrite buf p (a @ b)"
  using assms by (simp add: overwrite_def ac_simps)

lemma overwrite_0: "overwrite buf 0 src = src @ drop (length src) buf"
  by (simp add: overwrite_def)

lemma store_at_ok:
  "0 \<le> i \<Longrightarrow> i < int (length buf) \<Longrightarrow> store_at buf i v = Inr (overwrite buf (nat i) [v])"
  by (simp add: store_at_def overwrite_def upd_conv_take_nth_drop)

lemma raw_store_ok:
  "0 \<le> i \<Longrightarrow> i + int (length src) \<le> int (length buf) \<Longrightarrow>
     raw_store buf i src = Inr (overwrite buf (nat i) src)"
  by (simp add: raw_store_def overwrite_def)

lemma unsafe_store_ok:
  "0 \<le> i \<Longrightarrow> i < int (length buf) \<Longrightarrow> i + int (length src) \<le> int (length buf) \<Longrightarrow>
     unsafe_store buf i src = Inr (overwrite buf (nat i) src)"
  by (simp add: unsafe_store_def raw_store_ok)

lemma copy_at_ok:
  "0 \<le> i \<Longrightarrow> i + int (length src) \<le> int (length buf) \<Longrightarrow>
     copy_at buf i src = Inr (overwrite buf (nat i) src)"
  by (simp add: copy_at_def overwrite_def Let_def min_def) linarith

lemma copy_at_any:
  "0 \<le> i \<Longrightarrow> i \<le> int (length buf) \<Longrightarrow>
     copy_at buf i src =
       Inr (overwrite buf (nat i) (take (min (length buf - nat i) (length src)) src))"
  by (simp add: copy_at_def overwrite_def Let_def min_def)

lemma store_bytes_ok:
  "0 \<le> i \<Longrightarrow> i + int (length vs) \<le> int (length buf) \<Longrightarrow>
     store_bytes buf i vs = Inr (overwrite buf (nat i) vs)"
proof (induction vs arbitrary: buf i)
  case Nil
  then show ?case by simp
next
  case (Cons v vs)
  have s: "store_at buf i v = Inr (overwrite buf (nat i) [v])"
    using Cons.prems by (intro store_at_ok) simp_all
  have l: "length (overwrite buf (nat i) [v]) = length buf"
    using Cons.prems by (intro length_overwrite) simp
  have "store_bytes (overwrite buf (nat i) [v]) (i + 1) vs =
      Inr (overwrite (overwrite buf (nat i) [v]) (nat (i + 1)) vs)"
    using Cons.prems l by (intro Cons.IH) simp_all
  moreover have "overwrite (overwrite buf (nat i) [v]) (nat i + length [v]) vs =
      overwrite buf (nat i) ([v] @ vs)"
    using Cons.prems by (intro overwrite_overwrite) simp
  moreover have "nat (i + 1) = nat i + length [v]" using Cons.prems by simp
  ultimately show ?case using s by simp
qed

lemma length_structured_header [simp]: "length (structured_header level seq nanotime) = 22"
  by (simp add: structured_header_def length_le_bytes)

lemma length_basic_header [simp]: "length (basic_header level nanotime n) = 16"
  by (simp add: basic_header_def length_le_bytes)

lemma ow2:
  assumes "overwrite buf p a = buf1" "q = p + length a" "p + length a + length b \<le> length buf"
  shows "overwrite buf1 q b = overwrite buf p (a @ b)"
  using assms overwrite_overwrite [of p a b buf] by simp

lemma writeBinaryHeader_ok:
  assumes "22 \<le> length buf"
  shows "writeBinaryHeader buf level seq nanotime =
     Inr (22, overwrite buf 0 (structured_header level seq nanotime))"
proof -
  let ?m = "le_bytes 4 MagicHeader"
  have ne: "buf \<noteq> []" using assms by auto
  have s1: "raw_store buf 0 ?m = Inr (overwrite buf 0 ?m)"
    using assms by (subst raw_store_ok) (simp_all add: length_le_bytes)
  have l1: "length (overwrite buf 0 ?m) = length buf"
    using assms by (intro length_overwrite) (simp add: length_le_bytes)
  have s2: "raw_store (overwrite buf 0 ?m) 4 [Version] = Inr (overwrite buf 0 (?m @ [Version]))"
    using assms l1 by (subst raw_store_ok) (simp_all add: ow2 [OF refl] length_le_bytes)
  have l2: "length (overwrite buf 0 (?m @ [Version])) = length buf"
    using assms by (intro length_overwrite) (simp add: length_le_bytes)
  have s3: "raw_store (overwrite buf 0 (?m @ [Version])) 5 [level] =
      Inr (overwrite buf 0 ((?m @ [Version]) @ [level]))"
    using assms l2 by (subst raw_store_ok) (simp_all add: ow2 [OF refl] length_le_bytes)
  have l3: "length (overwrite buf 0 ((?m @ [Version]) @ [level])) = length buf"
    using assms by (intro length_overwrite) (simp add: length_le_bytes)
  have s4: "raw_store (overwrite buf 0 ((?m @ [Version]) @ [level])) 6 (le_bytes 8 seq) =
      Inr (overwrite buf 0 (((?m @ [Version]) @ [level]) @ le_bytes 8 seq))"
    using assms l3 by (subst raw_store_ok) (simp_all add: ow2 [OF refl] length_le_bytes)
  have l4: "length (overwrite buf 0 (((?m @ [Version]) @ [level]) @ le_bytes 8 seq)) = length buf"
    using assms by (intro length_overwrite) (simp add: length_le_bytes)
  have s5: "raw_store (overwrite buf 0 (((?m @ [Version]) @ [level]) @ le_bytes 8 seq)) 14
        (le_bytes 8 nanotime) =
      Inr (overwrite buf 0 ((((?m @ [Version]) @ [level]) @ le_bytes 8 seq) @ le_bytes 8 nanotime))"
    using assms l4 by (subst raw_store_ok) (simp_all add: ow2 [OF refl] length_le_bytes)
  show ?thesis
    unfolding writeBinaryHeader_def
    by (simp only: ne if_False s1 s2 s3 s4 s5 bind_f_Inr)
       (simp add: structured_header_def)
qed

lemma store_at_chain:
  assumes "p + length a + 1 \<le> length buf" "i = int (p + length a)"
  shows "store_at (overwrite buf p a) i v = Inr (overwrite buf p (a @ [v]))"
proof -
  have l: "length (overwrite buf p a) = length buf" using assms by (intro length_overwrite) simp
  have "store_at (overwrite buf p a) i v = Inr (overwrite (overwrite buf p a) (nat i) [v])"
    using assms l by (intro store_at_ok) simp_all
  moreover have "overwrite (overwrite buf p a) (p + length a) [v] = overwrite buf p (a @ [v])"
    using assms by (intro overwrite_overwrite) simp
  ultimately show ?thesis using assms(2) by (simp add: nat_int_add)
qed

lemma store_bytes_chain:
  assumes "p + length a + length vs \<le> length buf" "i = int (p + length a)"
  shows "store_bytes (overwrite buf p a) i vs = Inr (overwrite buf p (a @ vs))"
proof -
  have l: "length (overwrite buf p a) = length buf" using assms by (intro length_overwrite) simp
  have "store_bytes (overwrite buf p a) i vs = Inr (overwrite (overwrite buf p a) (nat i) vs)"
    using assms l by (intro store_bytes_ok) simp_all
  moreover have "overwrite (overwrite buf p a) (p + length a) vs = overwrite buf p (a @ vs)"
    using assms by (intro overwrite_overwrite) simp
  ultimately show ?thesis using assms(2) by (simp add: nat_int_add)
qed

lemma copy_at_chain:
  assumes "p + length a + length src \<le> length buf" "i = int (p + length a)"
  shows "copy_at (overwrite buf p a) i src = Inr (overwrite buf p (a @ src))"
proof -
  have l: "length (overwrite buf p a) = length buf" using assms by (intro length_overwrite) simp
  have "copy_at (overwrite buf p a) i src = Inr (overwrite (overwrite buf p a) (nat i) src)"
    using assms l by (intro copy_at_ok) simp_all
  moreover have "overwrite (overwrite buf p a) (p + length a) src = overwrite buf p (a @ src)"
    using assms by (intro overwrite_overwrite) simp
  ultimately show ?thesis using assms(2) by (simp add: nat_int_add)
qed

lemma raw_store_chain:
  assumes "p + length a + length src \<le> length buf" "i = int (p + length a)"
  shows "raw_store (overwrite buf p a) i src = Inr (overwrite buf p (a @ src))"
proof -
  have l: "length (overwrite buf p a) = length buf" using assms by (intro length_overwrite) simp
  have "raw_store (overwrite buf p a) i src = Inr (overwrite (overwrite buf p a) (nat i) src)"
    using assms l by (intro raw_store_ok) simp_all
  moreover have "overwrite (overwrite buf p a) (p + length a) src = overwrite buf p (a @ src)"
    using assms by (intro overwrite_overwrite) simp
  ultimately show ?thesis using assms(2) by (simp add: nat_int_add)
qed

lemma unsafe_store_chain:
  assumes "p + length a + length src \<le> length buf" "i = int (p + length a)" "src \<noteq> []"
  shows "unsafe_store (overwrite buf p a) i src = Inr (overwrite buf p (a @ src))"
proof -
  have l: "length (overwrite buf p a) = length buf" using assms by (intro length_overwrite) simp
  have "0 < length src" using assms(3) by simp
  then have "p + length a < length buf" using assms(1) by linarith
  then have "i < int (length (overwrite buf p a))" using assms(2) l by simp
  then show ?thesis
    using assms by (simp add: unsafe_store_def raw_store_chain)
qed

lemma overwrite_self: "overwrite buf p [] = buf" if "p \<le> length buf"
  using that by simp

lemma length_be_bytes [simp]: "length (be_bytes n w) = n"
  by (simp add: be_bytes_def length_le_bytes)

lemma length_overwrite_0: "length a \<le> length sub \<Longrightarrow> length (overwrite sub 0 a) = length sub"
  by (intro length_overwrite) simp

lemma encodeFieldValue_fixed:
  assumes "length a \<le> length sub"
    and "\<not> int (length sub) - int (length a) < int (length vs)"
  shows "bind_f (store_bytes (overwrite sub 0 a) (int (length a)) vs)
           (\<lambda>buf. Inr (int (length a) + int (length vs), buf)) =
         Inr (int (length a) + int (length vs), overwrite sub 0 (a @ vs))"
proof -
  have "store_bytes (overwrite sub 0 a) (int (length a)) vs = Inr (overwrite sub 0 (a @ vs))"
    using assms by (intro store_bytes_chain) simp_all
  then show ?thesis by simp
qed

lemma encodeFieldValue_prefixed:
  assumes "length a \<le> length sub"
    and "\<not> int (length sub) - int (length a) < 2"
    and "n \<le> int (length sub) - int (length a) - 2"
    and "n \<le> int (length payload)"
  shows "bind_f (store_at (overwrite sub 0 a) (int (length a)) h) (\<lambda>buf.
         bind_f (store_at buf (int (length a) + 1) l) (\<lambda>buf.
           if n > 0
           then bind_f (copy_at buf (int (length a) + 2) (take (nat n) payload)) (\<lambda>buf.
                  Inr (int (length a) + 2 + n, buf))
           else Inr (int (length a) + 2, buf))) =
         Inr (int (length a) + int (length ([h, l] @ take (nat n) payload)),
              overwrite sub 0 (a @ [h, l] @ take (nat n) payload))"
proof -
  have s1: "store_at (overwrite sub 0 a) (int (length a)) h = Inr (overwrite sub 0 (a @ [h]))"
    using assms(1,2) by (intro store_at_chain) simp_all
  have s2: "store_at (overwrite sub 0 (a @ [h])) (int (length a) + 1) l =
      Inr (overwrite sub 0 ((a @ [h]) @ [l]))"
    using assms(1,2) by (intro store_at_chain) simp_all
  show ?thesis
  proof (cases "n > 0")
    case True
    have "copy_at (overwrite sub 0 ((a @ [h]) @ [l])) (int (length a) + 2) (take (nat n) payload) =
        Inr (overwrite sub 0 (((a @ [h]) @ [l]) @ take (nat n) payload))"
    proof (intro copy_at_chain)
      have "length (take (nat n) payload) = nat n" using assms(4) True by simp
      moreover have "length a + 2 + nat n \<le> length sub" using assms(2,3) True by linarith
      ultimately show "0 + length ((a @ [h]) @ [l]) + length (take (nat n) payload) \<le> length sub"
        by simp
      show "int (length a) + 2 = int (0 + length ((a @ [h]) @ [l]))" by simp
    qed
    moreover have "int (min (length payload) (nat n)) = n" using True assms(4) by simp
    ultimately show ?thesis using True by (simp add: s1 s2)
  next
    case False
    then show ?thesis by (simp add: s1 s2)
  qed
qed

lemma encodeFieldValue_spec:
  assumes "field_ok f" and "length a \<le> length sub"
  shows "encodeFieldValue (overwrite sub 0 a) (int (length a)) f =
     Inr (int (length a) + int (length (enc_value (int (length sub)) (int (length a)) f)),
          overwrite sub 0 (a @ enc_value (int (length sub)) (int (length a)) f))"
proof -
  note l = length_overwrite_0 [OF assms(2)]
  note fx = encodeFieldValue_fixed [OF assms(2)]
  consider
    (fixed8) "Type f = FieldTypeInt \<or> Type f = FieldTypeUint \<or> Type f = FieldTypeBool \<or>
       Type f = FieldTypeFloat64"
    | (f32) "Type f = FieldTypeFloat32"
    | (string) "Type f = FieldTypeString"
    | (bytes) "Type f = FieldTypeBytes"
    | (other) "Type f \<noteq> FieldTypeInt" "Type f \<noteq> FieldTypeUint" "Type f \<noteq> FieldTypeBool"
      "Type f \<noteq> FieldTypeFloat64" "Type f \<noteq> FieldTypeFloat32" "Type f \<noteq> FieldTypeString"
      "Type f \<noteq> FieldTypeBytes"
    by blast
  then show ?thesis
  proof cases
    case fixed8
    show ?thesis
    proof (cases "int (length sub) - int (length a) < 8")
      case True
      then show ?thesis using fixed8 assms(2)
        by (auto simp add: encodeFieldValue_def enc_value_def l FieldType_defs)
    next
      case False
      from fx [of "be_bytes 8 (num f)"] False
      have "bind_f (store_bytes (overwrite sub 0 a) (int (length a)) (be_bytes 8 (num f)))
           (\<lambda>buf. Inr (int (length a) + 8, buf)) =
         Inr (int (length a) + 8, overwrite sub 0 (a @ be_bytes 8 (num f)))" by simp
      then show ?thesis using fixed8 False
        by (auto simp add: encodeFieldValue_def enc_value_def l FieldType_defs)
    qed
  next
    case f32
    show ?thesis
    proof (cases "int (length sub) - int (length a) < 4")
      case True
      then show ?thesis using f32 assms(2)
        by (simp add: encodeFieldValue_def enc_value_def l FieldType_defs)
    next
      case False
      from fx [of "be_bytes 4 (ucast (num f) :: 32 word)"] False
      have "bind_f (store_bytes (overwrite sub 0 a) (int (length a))
             (be_bytes 4 (ucast (num f) :: 32 word)))
           (\<lambda>buf. Inr (int (length a) + 4, buf)) =
         Inr (int (length a) + 4, overwrite sub 0 (a @ be_bytes 4 (ucast (num f) :: 32 word)))"
        by simp
      then show ?thesis using f32 False
        by (simp add: encodeFieldValue_def enc_value_def l FieldType_defs Let_def)
    qed
  next
    case string
    show ?thesis
    proof (cases "int (length sub) - int (length a) < 2")
      case True
      then show ?thesis using string assms(2)
        by (simp add: encodeFieldValue_def enc_value_def l FieldType_defs)
    next
      case False
      define n where "n = min (min (int (length (str f))) (int (length sub) - int (length a) - 2)) 65535"
      have n0: "0 \<le> n" using False by (simp add: n_def)
      have sl: "n > 0 \<Longrightarrow> slice (str f) 0 n = Inr (take (nat n) (str f))"
        by (subst slice_ok) (simp_all add: n_def)
      have nn: "(if (if int (length (str f)) > int (length sub) - int (length a) - 2
                    then int (length sub) - int (length a) - 2 else int (length (str f))) > 65535
                then 65535
                else (if int (length (str f)) > int (length sub) - int (length a) - 2
                      then int (length sub) - int (length a) - 2 else int (length (str f)))) = n"
        by (simp add: n_def min_def)
      from encodeFieldValue_prefixed [OF assms(2) False, of n "str f"
          "word_of_int (drop_bit 8 n)" "word_of_int n"]
      have p: "bind_f (store_at (overwrite sub 0 a) (int (length a)) (word_of_int (drop_bit 8 n)))
         (\<lambda>buf. bind_f (store_at buf (int (length a) + 1) (word_of_int n)) (\<lambda>buf.
           if n > 0
           then bind_f (copy_at buf (int (length a) + 2) (take (nat n) (str f))) (\<lambda>buf.
                  Inr (int (length a) + 2 + n, buf))
           else Inr (int (length a) + 2, buf))) =
         Inr (int (length a) + int (length ([word_of_int (drop_bit 8 n), word_of_int n] @
                take (nat n) (str f))),
              overwrite sub 0 (a @ [word_of_int (drop_bit 8 n), word_of_int n] @
                take (nat n) (str f)))"
        by (simp add: n_def)
      have "encodeFieldValue (overwrite sub 0 a) (int (length a)) f =
          bind_f (store_at (overwrite sub 0 a) (int (length a)) (word_of_int (drop_bit 8 n)))
         (\<lambda>buf. bind_f (store_at buf (int (length a) + 1) (word_of_int n)) (\<lambda>buf.
           if n > 0
           then bind_f (copy_at buf (int (length a) + 2) (take (nat n) (str f))) (\<lambda>buf.
                  Inr (int (length a) + 2 + n, buf))
           else Inr (int (length a) + 2, buf)))"
        using string False sl
        by (simp add: encodeFieldValue_def l FieldType_defs Let_def nn cong: if_cong)
      also note p
      finally show ?thesis using string False
        by (simp add: enc_value_def FieldType_defs Let_def n_def)
    qed
  next
    case bytes
    show ?thesis
    proof (cases "int (length sub) - int (length a) < 2")
      case True
      then show ?thesis using bytes assms(2)
        by (simp add: encodeFieldValue_def enc_value_def l FieldType_defs)
    next
      case False
      define n where "n = min (min (sint (num f)) (int (length sub) - int (length a) - 2)) 65535"
      have nn: "(if (if sint (num f) > int (length sub) - int (length a) - 2
                    then int (length sub) - int (length a) - 2 else sint (num f)) > 65535
                then 65535
                else (if sint (num f) > int (length sub) - int (length a) - 2
                      then int (length sub) - int (length a) - 2 else sint (num f))) = n"
        by (simp add: n_def min_def)
      show ?thesis
      proof (cases "ptr f")
        case None
        have s1: "store_at (overwrite sub 0 a) (int (length a)) (word_of_int (drop_bit 8 n)) =
            Inr (overwrite sub 0 (a @ [word_of_int (drop_bit 8 n)]))"
          using assms(2) False by (intro store_at_chain) simp_all
        have s2: "store_at (overwrite sub 0 (a @ [word_of_int (drop_bit 8 n)])) (int (length a) + 1)
              (word_of_int n) =
            Inr (overwrite sub 0 ((a @ [word_of_int (drop_bit 8 n)]) @ [word_of_int n]))"
          using assms(2) False by (intro store_at_chain) simp_all
        show ?thesis using bytes False None
          by (simp add: encodeFieldValue_def enc_value_def l FieldType_defs Let_def nn
              n_def [symmetric] s1 s2)
      next
        case (Some mem)
        have le: "n \<le> int (length mem)"
          using assms(1) Some by (simp add: field_ok_def n_def)
        from encodeFieldValue_prefixed [OF assms(2) False, of n mem
            "word_of_int (drop_bit 8 n)" "word_of_int n"] le
        have p: "bind_f (store_at (overwrite sub 0 a) (int (length a)) (word_of_int (drop_bit 8 n)))
           (\<lambda>buf. bind_f (store_at buf (int (length a) + 1) (word_of_int n)) (\<lambda>buf.
             if n > 0
             then bind_f (copy_at buf (int (length a) + 2) (take (nat n) mem)) (\<lambda>buf.
                    Inr (int (length a) + 2 + n, buf))
             else Inr (int (length a) + 2, buf))) =
           Inr (int (length a) + int (length ([word_of_int (drop_bit 8 n), word_of_int n] @
                  take (nat n) mem)),
                overwrite sub 0 (a @ [word_of_int (drop_bit 8 n), word_of_int n] @
                  take (nat n) mem))"
          by (simp add: n_def)
        have "encodeFieldValue (overwrite sub 0 a) (int (length a)) f =
            bind_f (store_at (overwrite sub 0 a) (int (length a)) (word_of_int (drop_bit 8 n)))
           (\<lambda>buf. bind_f (store_at buf (int (length a) + 1) (word_of_int n)) (\<lambda>buf.
             if n > 0
             then bind_f (copy_at buf (int (length a) + 2) (take (nat n) mem)) (\<lambda>buf.
                    Inr (int (length a) + 2 + n, buf))
             else Inr (int (length a) + 2, buf)))"
          using bytes False Some le
          by (simp add: encodeFieldValue_def l FieldType_defs Let_def nn cong: if_cong)
        also note p
        finally show ?thesis using bytes False Some
          by (simp add: enc_value_def FieldType_defs Let_def n_def)
      qed
    qed
  next
    case other
    then show ?thesis using assms(2)
      by (simp add: encodeFieldValue_def enc_value_def)
  qed
qed

lemma encodeField_spec:
  assumes "field_ok f"
  shows "encodeField sub f =
     Inr (int (length (enc_field (int (length sub)) f)),
          overwrite sub 0 (enc_field (int (length sub)) f))"
proof (cases "int (length sub) < 10")
  case True
  then show ?thesis by (simp add: encodeField_def enc_field_def)
next
  case False
  define keyLen where "keyLen = min (min (int (length (Key f))) 255) (int (length sub) - 2)"
  have k0: "0 \<le> keyLen" "keyLen \<le> int (length (Key f))" "keyLen + 2 \<le> int (length sub)"
    using False by (simp_all add: keyLen_def)
  have kk: "(if (if int (length (Key f)) > 255 then 255 else int (length (Key f))) >
                int (length sub) - 0 - 2
             then int (length sub) - 0 - 2
             else (if int (length (Key f)) > 255 then 255 else int (length (Key f)))) = keyLen"
    by (simp add: keyLen_def min_def)
  have ng: "\<not> ((if int (length (Key f)) > 255 then 255 else int (length (Key f))) >
                int (length sub) - 0 - 2 \<and> int (length sub) - 0 - 2 < 0)"
    using False by simp
  define a1 :: bytes where "a1 = [word_of_int keyLen]"
  define a2 where "a2 = a1 @ take (nat keyLen) (Key f)"
  define a3 where "a3 = a2 @ [Type f]"
  have la: "length a1 = 1" "length a2 = 1 + nat keyLen" "length a3 = 2 + nat keyLen"
    using k0 by (simp_all add: a1_def a2_def a3_def)
  have s1: "store_at sub 0 (word_of_int keyLen) = Inr (overwrite sub 0 a1)"
    using False by (subst store_at_ok) (auto simp add: a1_def)
  have sl: "slice (Key f) 0 keyLen = Inr (take (nat keyLen) (Key f))"
    using k0 by (subst slice_ok) simp_all
  have s2: "copy_at (overwrite sub 0 a1) (0 + 1) (take (nat keyLen) (Key f)) = Inr (overwrite sub 0 a2)"
    unfolding a2_def using k0 la by (intro copy_at_chain) simp_all
  have s3: "store_at (overwrite sub 0 a2) (0 + 1 + keyLen) (Type f) = Inr (overwrite sub 0 a3)"
    unfolding a3_def using k0 la by (intro store_at_chain) simp_all
  have l3: "length a3 \<le> length sub" using k0 la by simp
  have p3: "0 + 1 + keyLen + 1 = int (length a3)" using k0 la by simp
  have "encodeField sub f = encodeFieldValue (overwrite sub 0 a3) (int (length a3)) f"
    unfolding encodeField_def
    by (simp only: False if_False Let_def ng kk s1 bind_f_Inr sl s2 s3 p3)
  also note encodeFieldValue_spec [OF assms l3]
  finally show ?thesis
    using False p3
    by (simp add: enc_field_def Let_def keyLen_def [symmetric] a3_def a2_def a1_def)
qed

lemma length_enc_value: "0 \<le> pos \<Longrightarrow> pos \<le> L \<Longrightarrow> field_ok f \<Longrightarrow>
    pos + int (length (enc_value L pos f)) \<le> L"
  by (auto simp add: enc_value_def Let_def field_ok_def min_def split: option.splits)

lemma length_enc_field: "0 \<le> L \<Longrightarrow> field_ok f \<Longrightarrow> int (length (enc_field L f)) \<le> L"
proof (cases "L < 10")
  case True
  assume "0 \<le> L"
  with True show ?thesis by (simp add: enc_field_def)
next
  case False
  assume ok: "field_ok f"
  define keyLen where "keyLen = min (min (int (length (Key f))) 255) (L - 2)"
  have k0: "0 \<le> keyLen" "keyLen \<le> int (length (Key f))" "keyLen + 2 \<le> L"
    using False by (simp_all add: keyLen_def)
  have "2 + keyLen + int (length (enc_value L (2 + keyLen) f)) \<le> L"
    using k0 ok by (intro length_enc_value) simp_all
  then show ?thesis using False k0
    by (simp add: enc_field_def Let_def keyLen_def [symmetric])
qed

lemma overwrite_0_append:
  assumes "length a + length e \<le> length buf"
  shows "take (length a) (overwrite buf 0 a) @ overwrite (drop (length a) buf) 0 e =
     overwrite buf 0 (a @ e)"
  using assms by (simp add: overwrite_0 ac_simps)

lemma length_enc_fields:
  assumes "list_all field_ok fs" "0 \<le> pos" "pos \<le> L"
  shows "pos + int (length (enc_fields L pos fs)) \<le> L"
  using assms
proof (induction fs arbitrary: pos)
  case Nil
  then show ?case by simp
next
  case (Cons f fs)
  show ?case
  proof (cases "pos < L - 64")
    case False
    then show ?thesis using Cons.prems by simp
  next
    case True
    have e: "int (length (enc_field (L - pos) f)) \<le> L - pos"
      using Cons.prems by (intro length_enc_field) simp_all
    have "pos + int (length (enc_field (L - pos) f)) +
        int (length (enc_fields L (pos + int (length (enc_field (L - pos) f))) fs)) \<le> L"
      using Cons.prems e by (intro Cons.IH) simp_all
    then show ?thesis using True by simp
  qed
qed

lemma encodeFields_spec:
  assumes "list_all field_ok fs" "length a \<le> length buf"
  shows "encodeFields (overwrite buf 0 a) (int (length a)) fs =
     Inr (int (length a) + int (length (enc_fields (int (length buf)) (int (length a)) fs)),
          overwrite buf 0 (a @ enc_fields (int (length buf)) (int (length a)) fs))"
  using assms
proof (induction fs arbitrary: a)
  case Nil
  then show ?case by simp
next
  case (Cons f fs)
  have l: "length (overwrite buf 0 a) = length buf"
    using Cons.prems(2) by (rule length_overwrite_0)
  show ?case
  proof (cases "int (length a) < int (length buf) - 64")
    case False
    then show ?thesis using l by simp
  next
    case True
    define sub where "sub = drop (length a) buf"
    define e where "e = enc_field (int (length sub)) f"
    have ls: "int (length sub) = int (length buf) - int (length a)"
      using Cons.prems(2) by (simp add: sub_def)
    have sl: "slice (overwrite buf 0 a) (int (length a)) (int (length buf)) = Inr sub"
      using Cons.prems(2) l by (subst slice_ok) (simp_all add: sub_def overwrite_0)
    have ok: "field_ok f" "list_all field_ok fs" using Cons.prems(1) by simp_all
    have ef: "encodeField sub f = Inr (int (length e), overwrite sub 0 e)"
      unfolding e_def by (rule encodeField_spec [OF ok(1)])
    have le: "int (length e) \<le> int (length sub)"
      unfolding e_def using ok(1) by (intro length_enc_field) simp_all
    then have le': "length a + length e \<le> length buf" using ls by simp
    have j: "take (length a) (overwrite buf 0 a) @ overwrite sub 0 e =
        overwrite buf 0 (a @ e)"
      unfolding sub_def using overwrite_0_append [OF le'] by simp
    have ih: "encodeFields (overwrite buf 0 (a @ e)) (int (length (a @ e))) fs =
        Inr (int (length (a @ e)) + int (length (enc_fields (int (length buf)) (int (length (a @ e))) fs)),
          overwrite buf 0 ((a @ e) @ enc_fields (int (length buf)) (int (length (a @ e))) fs))"
      using ok(2) le' by (intro Cons.IH) simp_all
    have "encodeFields (overwrite buf 0 a) (int (length a)) (f # fs) =
        encodeFields (overwrite buf 0 (a @ e)) (int (length a) + int (length e)) fs"
      using True l by (simp add: sl ef j)
    also have "\<dots> = Inr (int (length (a @ e)) +
          int (length (enc_fields (int (length buf)) (int (length (a @ e))) fs)),
          overwrite buf 0 ((a @ e) @ enc_fields (int (length buf)) (int (length (a @ e))) fs))"
      using ih by simp
    finally show ?thesis using True ls by (simp add: e_def)
  qed
qed

lemma formatStructuredMessage_room:
  assumes "list_all field_ok fs" "24 + min (int (length msg)) 255 \<le> int (length buf)"
  shows "formatStructuredMessage l nanotime buf level msg fs =
     Inr (int (length (wire_structured (int (length buf)) level (sequence l + 1) nanotime msg fs)),
          overwrite buf 0 (wire_structured (int (length buf)) level (sequence l + 1) nanotime msg fs),
          l\<lparr>sequence := sequence l + 1\<rparr>)"
proof -
  define msgLen where "msgLen = min (int (length msg)) 255"
  define fieldCount where "fieldCount = min (int (length fs)) 255"
  define h where "h = structured_header level (sequence l + 1) nanotime"
  define a1 where "a1 = h @ [word_of_int msgLen]"
  define a2 where "a2 = a1 @ take 255 msg"
  define a3 where "a3 = a2 @ [word_of_int fieldCount]"
  have m0: "0 \<le> msgLen" "msgLen \<le> 255" "msgLen \<le> int (length msg)" by (simp_all add: msgLen_def)
  have r: "24 + msgLen \<le> int (length buf)" using assms(2) by (simp add: msgLen_def)
  have tk: "take (nat msgLen) msg = take 255 msg" by (simp add: msgLen_def min_def)
  have ltk: "int (length (take 255 msg)) = msgLen" by (simp add: msgLen_def min_def)
  have la: "length h = 22" "int (length a1) = 23" "int (length a2) = 23 + msgLen"
    "int (length a3) = 24 + msgLen"
    using ltk by (simp_all add: h_def a1_def a2_def a3_def)
  have mm: "(if int (length msg) > 255 then 255 else int (length msg)) = msgLen"
    by (simp add: msgLen_def min_def)
  have ff: "(if int (length fs) > 255 then 255 else int (length fs)) = fieldCount"
    by (simp add: fieldCount_def min_def)
  have tf: "take (nat fieldCount) fs = take 255 fs" by (simp add: fieldCount_def min_def)
  have b22: "22 \<le> length buf" using r m0 by simp
  have hd: "writeBinaryHeader buf level (sequence l + 1) nanotime = Inr (22, overwrite buf 0 h)"
    unfolding h_def using b22 by (intro writeBinaryHeader_ok) simp
  have s1: "store_at (overwrite buf 0 h) 22 (word_of_int msgLen) = Inr (overwrite buf 0 a1)"
    unfolding a1_def using r m0 la by (intro store_at_chain) simp_all
  have sl: "slice msg 0 msgLen = Inr (take 255 msg)"
    using m0 tk by (subst slice_ok) simp_all
  have s2: "copy_at (overwrite buf 0 a1) 23 (take 255 msg) = Inr (overwrite buf 0 a2)"
    unfolding a2_def using r la m0 ltk by (intro copy_at_chain) simp_all
  have s3: "store_at (overwrite buf 0 a2) (23 + msgLen) (word_of_int fieldCount) =
      Inr (overwrite buf 0 a3)"
    unfolding a3_def using r la m0 by (intro store_at_chain) simp_all
  have l3: "length a3 \<le> length buf" using r la m0 by simp
  have p3: "24 + msgLen = int (length a3)" using la by simp
  have ok: "list_all field_ok (take 255 fs)"
    using assms(1) by (simp add: list_all_iff) (meson in_set_takeD)
  note ef = encodeFields_spec [OF ok l3]
  have w: "wire_structured (int (length buf)) level (sequence l + 1) nanotime msg fs =
      a3 @ enc_fields (int (length buf)) (24 + msgLen) (take 255 fs)"
    by (simp add: wire_structured_def a3_def a2_def a1_def h_def msgLen_def fieldCount_def)
  show ?thesis
    unfolding w
    apply (simp only: formatStructuredMessage_def Let_def mm ff)
    apply (simp add: hd s1 sl s2 s3 tf ef p3)
    done
qed

lemma formatStructuredMessage_spec:
  assumes "list_all field_ok fs" "279 \<le> length buf"
  shows "formatStructuredMessage l nanotime buf level msg fs =
     Inr (int (length (wire_structured (int (length buf)) level (sequence l + 1) nanotime msg fs)),
          overwrite buf 0 (wire_structured (int (length buf)) level (sequence l + 1) nanotime msg fs),
          l\<lparr>sequence := sequence l + 1\<rparr>)"
  using assms(2) by (intro formatStructuredMessage_room [OF assms(1)]) simp

lemma BufferPool_Get_capacity:
  assumes "0 < s"
  shows "s \<le> int (length (backing (fst (BufferPool_Get bp s))))"
  using assms
  by (auto simp add: BufferPool_Get_def Let_def case_prod_unfold split: list.splits)

lemma formatMessage_spec:
  assumes "length buf = 16 + length msg"
  shows "formatMessage nanotime buf level msg =
     Inr (basic_header level nanotime (word_of_int (int (length msg))) @ msg)"
proof -
  let ?m = "le_bytes 4 MagicHeader"
  let ?t = "le_bytes 8 nanotime"
  let ?n = "le_bytes 2 (word_of_int (int (length msg)) :: 16 word)"
  have s1: "unsafe_store buf 0 ?m = Inr (overwrite buf 0 ?m)"
    using assms by (subst unsafe_store_ok) (simp_all add: length_le_bytes)
  have s2: "store_at (overwrite buf 0 ?m) 4 Version = Inr (overwrite buf 0 (?m @ [Version]))"
    using assms by (intro store_at_chain) (simp_all add: length_le_bytes)
  have s3: "store_at (overwrite buf 0 (?m @ [Version])) 5 level =
      Inr (overwrite buf 0 ((?m @ [Version]) @ [level]))"
    using assms by (intro store_at_chain) (simp_all add: length_le_bytes)
  have s4: "unsafe_store (overwrite buf 0 ((?m @ [Version]) @ [level])) 6 ?t =
      Inr (overwrite buf 0 (((?m @ [Version]) @ [level]) @ ?t))"
    using assms by (intro unsafe_store_chain) (simp_all add: length_le_bytes le_bytes_def)
  have s5: "unsafe_store (overwrite buf 0 (((?m @ [Version]) @ [level]) @ ?t)) 14 ?n =
      Inr (overwrite buf 0 ((((?m @ [Version]) @ [level]) @ ?t) @ ?n))"
    using assms by (intro unsafe_store_chain) (simp_all add: length_le_bytes le_bytes_def)
  have s6: "copy_at (overwrite buf 0 ((((?m @ [Version]) @ [level]) @ ?t) @ ?n)) 16 msg =
      Inr (overwrite buf 0 (((((?m @ [Version]) @ [level]) @ ?t) @ ?n) @ msg))"
    using assms by (intro copy_at_chain) (simp_all add: length_le_bytes)
  have o: "overwrite buf 0 (((((?m @ [Version]) @ [level]) @ ?t) @ ?n) @ msg) =
      ((((?m @ [Version]) @ [level]) @ ?t) @ ?n) @ msg"
    using assms by (simp add: overwrite_0 length_le_bytes)
  show ?thesis
    unfolding formatMessage_def
    by (simp only: s1 s2 s3 s4 s5 s6 bind_f_Inr o) (simp add: basic_header_def)
qed

lemma Logger_log_spec:
  "\<exists>bp'. Logger_log bp nanotime level msg =
     Inr (basic_header level nanotime (word_of_int (int (length msg))) @ msg, bp')"
proof (cases "16 + int (length msg) \<le> 256")
  case True
  have sl: "slice (replicate 256 0) 0 (16 + int (length msg)) =
      Inr (replicate (16 + length msg) 0)"
    using True by (subst slice_ok) (simp_all add: min_def nat_add_distrib)
  have "formatMessage nanotime (replicate (16 + length msg) 0) level msg =
      Inr (basic_header level nanotime (word_of_int (int (length msg))) @ msg)"
    by (intro formatMessage_spec) simp
  then show ?thesis using True by (simp add: Logger_log_def Let_def sl)
next
  case False
  define got where "got = BufferPool_Get bp (16 + int (length msg))"
  have cap: "16 + int (length msg) \<le> int (length (backing (fst got)))"
    unfolding got_def by (intro BufferPool_Get_capacity) simp
  have sl: "slice (backing (fst got)) 0 (16 + int (length msg)) =
      Inr (take (16 + length msg) (backing (fst got)))"
    using cap by (subst slice_ok) (simp_all add: nat_add_distrib)
  have "formatMessage nanotime (take (16 + length msg) (backing (fst got))) level msg =
      Inr (basic_header level nanotime (word_of_int (int (length msg))) @ msg)"
    using cap by (intro formatMessage_spec) simp
  then show ?thesis using False
    by (simp add: Logger_log_def Let_def got_def [symmetric] case_prod_unfold sl)
qed

lemma formatUltimateMessage_spec:
  assumes "msgLen = min (int (length msg)) 200" "int (length buf) = 23 + msgLen"
  shows "formatUltimateMessage l nanotime buf level msg msgLen =
     Inr (wire_ultimate level (ul_sequence l + 1) nanotime msg, l\<lparr>ul_sequence := ul_sequence l + 1\<rparr>)"
proof -
  let ?m = "le_bytes 4 MagicHeader"
  let ?s = "le_bytes 8 (ul_sequence (l\<lparr>ul_sequence := ul_sequence l + 1\<rparr>))"
  let ?t = "le_bytes 8 nanotime"
  have m0: "0 \<le> msgLen" "msgLen \<le> int (length msg)" using assms(1) by simp_all
  have tk: "take (nat msgLen) msg = take 200 msg" using assms(1) by (simp add: min_def)
  have ltk: "length (take 200 msg) = nat msgLen" using assms(1) by (simp add: min_def)
  have lb: "length buf = 23 + nat msgLen" using assms(2) m0 by simp
  have ne: "buf \<noteq> []" using lb by auto
  have s1: "raw_store buf 0 ?m = Inr (overwrite buf 0 ?m)"
    using lb by (subst raw_store_ok) (simp_all add: length_le_bytes)
  have s2: "raw_store (overwrite buf 0 ?m) 4 [Version] = Inr (overwrite buf 0 (?m @ [Version]))"
    using lb by (intro raw_store_chain) (simp_all add: length_le_bytes)
  have s3: "raw_store (overwrite buf 0 (?m @ [Version])) 5 [level] =
      Inr (overwrite buf 0 ((?m @ [Version]) @ [level]))"
    using lb by (intro raw_store_chain) (simp_all add: length_le_bytes)
  have s4: "raw_store (overwrite buf 0 ((?m @ [Version]) @ [level])) 6 ?s =
      Inr (overwrite buf 0 (((?m @ [Version]) @ [level]) @ ?s))"
    using lb by (intro raw_store_chain) (simp_all add: length_le_bytes)
  have s5: "raw_store (overwrite buf 0 (((?m @ [Version]) @ [level]) @ ?s)) 14 ?t =
      Inr (overwrite buf 0 ((((?m @ [Version]) @ [level]) @ ?s) @ ?t))"
    using lb by (intro raw_store_chain) (simp_all add: length_le_bytes)
  have s6: "raw_store (overwrite buf 0 ((((?m @ [Version]) @ [level]) @ ?s) @ ?t)) 22
        [word_of_int msgLen] =
      Inr (overwrite buf 0 (((((?m @ [Version]) @ [level]) @ ?s) @ ?t) @ [word_of_int msgLen]))"
    using lb by (intro raw_store_chain) (simp_all add: length_le_bytes)
  have sl: "slice msg 0 msgLen = Inr (take 200 msg)"
    using m0 tk by (subst slice_ok) simp_all
  have s7: "copy_at (overwrite buf 0 (((((?m @ [Version]) @ [level]) @ ?s) @ ?t) @
        [word_of_int msgLen])) 23 (take 200 msg) =
      Inr (overwrite buf 0 ((((((?m @ [Version]) @ [level]) @ ?s) @ ?t) @ [word_of_int msgLen]) @
        take 200 msg))"
    using lb by (intro copy_at_chain) (simp_all add: length_le_bytes ltk del: length_take)
  have o: "overwrite buf 0 ((((((?m @ [Version]) @ [level]) @ ?s) @ ?t) @ [word_of_int msgLen]) @
        take 200 msg) =
      (((((?m @ [Version]) @ [level]) @ ?s) @ ?t) @ [word_of_int msgLen]) @ take 200 msg"
    using lb by (simp add: overwrite_0 length_le_bytes ltk del: length_take)
  have o0: "overwrite buf 0 (((((?m @ [Version]) @ [level]) @ ?s) @ ?t) @ [word_of_int msgLen]) =
      (((((?m @ [Version]) @ [level]) @ ?s) @ ?t) @ [word_of_int msgLen]) @ take 200 msg"
    if "msgLen = 0"
  proof -
    have "length (take 200 msg) = 0" using ltk that by (simp del: length_take)
    then have "take 200 msg = []" by (simp only: length_0_conv)
    then show ?thesis using lb that by (simp add: overwrite_0 length_le_bytes)
  qed
  show ?thesis
  proof (cases "msgLen > 0")
    case True
    show ?thesis
      unfolding formatUltimateMessage_def
      by (simp only: ne if_False Let_def UltimateLogger.simps s1 s2 s3 s4 s5 s6 bind_f_Inr True
          if_True sl s7 o)
         (simp add: wire_ultimate_def structured_header_def assms(1))
  next
    case False
    then have z: "msgLen = 0" using m0 by simp
    show ?thesis
      unfolding formatUltimateMessage_def
      by (simp only: ne if_False Let_def UltimateLogger.simps s1 s2 s3 s4 s5 s6 bind_f_Inr False
          o0 [OF z])
         (simp add: wire_ultimate_def structured_header_def assms(1))
  qed
qed

lemma UltimateLogger_log_spec:
  "\<exists>bp'. UltimateLogger_log l bp nanotime level msg =
     Inr (wire_ultimate level (ul_sequence l + 1) nanotime msg,
          l\<lparr>ul_sequence := ul_sequence l + 1\<rparr>, bp')"
proof -
  define msgLen where "msgLen = min (int (length msg)) 200"
  have mm: "(if int (length msg) > 200 then 200 else int (length msg)) = msgLen"
    by (simp add: msgLen_def min_def)
  have m0: "0 \<le> msgLen" by (simp add: msgLen_def)
  show ?thesis
  proof (cases "23 + msgLen \<le> 128")
    case True
    have sl: "slice (replicate 128 0) 0 (23 + msgLen) = Inr (replicate (nat (23 + msgLen)) 0)"
      using True m0 by (subst slice_ok) (simp_all add: min_def)
    have "formatUltimateMessage l nanotime (replicate (nat (23 + msgLen)) 0) level msg msgLen =
        Inr (wire_ultimate level (ul_sequence l + 1) nanotime msg,
             l\<lparr>ul_sequence := ul_sequence l + 1\<rparr>)"
      using m0 by (intro formatUltimateMessage_spec) (simp_all add: msgLen_def)
    then show ?thesis
      unfolding UltimateLogger_log_def
      by (simp only: Let_def mm True if_True sl bind_f_Inr prod.case) simp
  next
    case False
    define got where "got = BufferPool_Get bp (23 + msgLen)"
    have cap: "23 + msgLen \<le> int (length (backing (fst got)))"
      unfolding got_def using m0 by (intro BufferPool_Get_capacity) simp
    have sl: "slice (backing (fst got)) 0 (23 + msgLen) =
        Inr (take (nat (23 + msgLen)) (backing (fst got)))"
      using cap m0 by (subst slice_ok) simp_all
    have "formatUltimateMessage l nanotime (take (nat (23 + msgLen)) (backing (fst got)))
          level msg msgLen =
        Inr (wire_ultimate level (ul_sequence l + 1) nanotime msg,
             l\<lparr>ul_sequence := ul_sequence l + 1\<rparr>)"
      using m0 cap by (intro formatUltimateMessage_spec) (simp_all add: msgLen_def)
    then show ?thesis
      unfolding UltimateLogger_log_def
      by (simp only: Let_def mm False if_False got_def [symmetric] case_prod_unfold sl bind_f_Inr)
         simp
  qed
qed

lemma length_wire_structured:
  assumes "list_all field_ok fs" "279 \<le> L"
  shows "int (length (wire_structured L level seq nanotime msg fs)) \<le> L"
proof -
  have ok: "list_all field_ok (take 255 fs)"
    using assms(1) by (simp add: list_all_iff) (meson in_set_takeD)
  have "24 + min (int (length msg)) 255 +
      int (length (enc_fields L (24 + min (int (length msg)) 255) (take 255 fs))) \<le> L"
    using ok assms(2) by (intro length_enc_fields) simp_all
  moreover have "int (length (wire_structured L level seq nanotime msg fs)) =
      24 + min (int (length msg)) 255 +
      int (length (enc_fields L (24 + min (int (length msg)) 255) (take 255 fs)))"
    unfolding wire_structured_def by (simp add: length_structured_header)
  ultimately show ?thesis by linarith
qed

lemma take_overwrite_0: "length w \<le> length buf \<Longrightarrow> take (length w) (overwrite buf 0 w) = w"
  by (simp add: overwrite_0)

lemma logFields_spec:
  assumes "list_all field_ok fs"
  shows "\<exists>L bp'. 512 \<le> L \<and>
     logFields l bp nanotime level msg fs =
       Inr (wire_structured L level (sequence l + 1) nanotime msg fs,
            l\<lparr>sequence := sequence l + 1\<rparr>, bp')"
proof -
  define msgLen where "msgLen = min (int (length msg)) 255"
  define est where "est = foldl (\<lambda>e f. e + (2 + int (length (Key f)) + 16)) (24 + msgLen) fs"
  have mm: "(if int (length msg) > 255 then 255 else int (length msg)) = msgLen"
    by (simp add: msgLen_def min_def)
  show ?thesis
  proof (cases "est \<le> 512")
    case True
    have f: "formatStructuredMessage l nanotime (replicate 512 0) level msg fs =
        Inr (int (length (wire_structured 512 level (sequence l + 1) nanotime msg fs)),
          overwrite (replicate 512 0) 0 (wire_structured 512 level (sequence l + 1) nanotime msg fs),
          l\<lparr>sequence := sequence l + 1\<rparr>)"
      using formatStructuredMessage_spec [OF assms, of "replicate 512 0" l nanotime level msg]
      by simp
    have lw: "int (length (wire_structured 512 level (sequence l + 1) nanotime msg fs)) \<le> 512"
      using assms by (intro length_wire_structured) simp_all
    have sl: "slice (overwrite (replicate 512 0) 0
          (wire_structured 512 level (sequence l + 1) nanotime msg fs)) 0
          (int (length (wire_structured 512 level (sequence l + 1) nanotime msg fs))) =
        Inr (wire_structured 512 level (sequence l + 1) nanotime msg fs)"
      using lw by (subst slice_ok) (simp_all add: take_overwrite_0 length_overwrite_0)
    have "logFields l bp nanotime level msg fs =
        Inr (wire_structured 512 level (sequence l + 1) nanotime msg fs,
            l\<lparr>sequence := sequence l + 1\<rparr>, bp)"
      unfolding logFields_def
      by (simp only: Let_def mm est_def [symmetric] True if_True f bind_f_Inr prod.case sl)
    then show ?thesis by (intro exI [of _ 512]) simp
  next
    case False
    define got where "got = BufferPool_Get bp (est + 256)"
    define buf where "buf = backing (fst got)"
    have cap: "est + 256 \<le> int (length buf)"
      unfolding got_def buf_def using False by (intro BufferPool_Get_capacity) simp
    then have big: "279 \<le> length buf" "512 \<le> int (length buf)" using False by simp_all
    have nb: "\<not> int (length buf) < est" using cap by simp
    let ?w = "wire_structured (int (length buf)) level (sequence l + 1) nanotime msg fs"
    have f: "formatStructuredMessage l nanotime buf level msg fs =
        Inr (int (length ?w), overwrite buf 0 ?w, l\<lparr>sequence := sequence l + 1\<rparr>)"
      by (rule formatStructuredMessage_spec [OF assms big(1)])
    have lw: "int (length ?w) \<le> int (length buf)"
      using assms big(1) by (intro length_wire_structured) simp_all
    have sl: "slice (overwrite buf 0 ?w) 0 (int (length ?w)) = Inr ?w"
      using lw by (subst slice_ok) (simp_all add: take_overwrite_0 length_overwrite_0)
    have "\<exists>bp'. logFields l bp nanotime level msg fs =
        Inr (?w, l\<lparr>sequence := sequence l + 1\<rparr>, bp')"
      unfolding logFields_def
      by (simp only: Let_def mm est_def [symmetric] False if_False got_def [symmetric]
          case_prod_unfold buf_def [symmetric] nb f bind_f_Inr fst_conv snd_conv sl) simp
    with big(2) show ?thesis by blast
  qed
qed

lemma unat_byte_of_min:
  "unat (word_of_int (min (int (length msg)) (int k)) :: byte) = min (length msg) k" if "k \<le> 255"
proof -
  have "min (int (length msg)) (int k) = int (min (length msg) k)" by simp
  moreover have "min (length msg) k < 2 ^ 8" using that by simp
  ultimately show ?thesis
    by (simp add: unat_of_nat take_bit_nat_eq_self)
qed

lemma structured_on_wire:
  assumes "list_all field_ok fs"
  shows "\<exists>out l' bp'. logFields l bp nanotime level msg fs = Inr (out, l', bp') \<and>
     unat (out ! 22) = min (length msg) 255 \<and>
     take (unat (out ! 22)) (drop 23 out) = take 255 msg"
proof -
  obtain L bp' where
    r: "logFields l bp nanotime level msg fs =
       Inr (wire_structured L level (sequence l + 1) nanotime msg fs,
            l\<lparr>sequence := sequence l + 1\<rparr>, bp')"
    using logFields_spec [OF assms] by blast
  let ?out = "wire_structured L level (sequence l + 1) nanotime msg fs"
  have b: "?out ! 22 = word_of_int (min (int (length msg)) 255)"
    by (simp add: wire_structured_def nth_append)
  have u: "unat (?out ! 22) = min (length msg) 255"
    unfolding b using unat_byte_of_min [of 255 msg] by simp
  have d: "drop 23 ?out = take 255 msg @ [word_of_int (min (int (length fs)) 255)] @
      enc_fields L (24 + min (int (length msg)) 255) (take 255 fs)"
    by (simp add: wire_structured_def)
  have "take (unat (?out ! 22)) (drop 23 ?out) = take 255 msg"
    unfolding u d by (simp add: min_def)
  with r u show ?thesis by blast
qed

lemma ultimate_on_wire:
  "\<exists>out u' bp'. UltimateLogger_log u bp nanotime level msg = Inr (out, u', bp') \<and>
     unat (out ! 22) = min (length msg) 200 \<and> drop 23 out = take 200 msg"
proof -
  obtain bp' where
    r: "UltimateLogger_log u bp nanotime level msg =
       Inr (wire_ultimate level (ul_sequence u + 1) nanotime msg,
            u\<lparr>ul_sequence := ul_sequence u + 1\<rparr>, bp')"
    using UltimateLogger_log_spec by blast
  let ?out = "wire_ultimate level (ul_sequence u + 1) nanotime msg"
  have b: "?out ! 22 = word_of_int (min (int (length msg)) 200)"
    by (simp add: wire_ultimate_def nth_append)
  have u: "unat (?out ! 22) = min (length msg) 200"
    unfolding b using unat_byte_of_min [of 200 msg] by simp
  have d: "drop 23 ?out = take 200 msg"
    by (simp add: wire_ultimate_def)
  from r u d show ?thesis by blast
qed

lemma basic_on_wire:
  assumes "length msg < 65536"
  shows "\<exists>out bp'. Logger_log bp nanotime level msg = Inr (out, bp') \<and>
     uint (le_word (take 2 (drop 14 out)) :: 16 word) = int (length msg) \<and>
     drop 16 out = msg"
proof -
  obtain bp' where
    r: "Logger_log bp nanotime level msg =
       Inr (basic_header level nanotime (word_of_int (int (length msg))) @ msg, bp')"
    using Logger_log_spec by blast
  let ?w = "word_of_int (int (length msg)) :: 16 word"
  let ?out = "basic_header level nanotime ?w @ msg"
  have h: "basic_header level nanotime ?w =
      (le_bytes 4 MagicHeader @ [Version] @ [level] @ le_bytes 8 nanotime) @ le_bytes 2 ?w"
    by (simp add: basic_header_def)
  have t: "take 2 (drop 14 ?out) = le_bytes 2 ?w"
    unfolding h by (simp add: length_le_bytes)
  have "le_word (le_bytes 2 ?w) = ?w"
    by (simp add: le_word_le_bytes take_bit_word_eq_self)
  then have p: "uint (le_word (take 2 (drop 14 ?out)) :: 16 word) = int (length msg)"
    unfolding t using assms by (simp add: unsigned_of_nat take_bit_nat_eq_self)
  have d: "drop 16 ?out = msg"
    by (simp add: length_basic_header)
  from r p d show ?thesis by blast
qed

text \<open>
  \<^bold>\<open>Claim C5\<close>, as amended. The structured logger writes the message cut at 255 bytes, and
  the length byte at offset 22 is the number of message bytes written (for fields whose
  recorded length does not exceed their memory). The ultimate logger cuts the message at
  200 bytes, not 255; its length byte is again the number of bytes written. The basic
  logger does not cut the message: for a message shorter than 65536 bytes, every byte of
  it follows the 16-byte header and the two-byte length at offset 14 is the length of the
  message.
\<close>

theorem message_bytes_on_wire:
  "(list_all field_ok fs \<longrightarrow>
      (\<exists>out l' bp'. logFields l bp nanotime level msg fs = Inr (out, l', bp') \<and>
         unat (out ! 22) = min (length msg) 255 \<and>
         take (unat (out ! 22)) (drop 23 out) = take 255 msg)) \<and>
   (\<exists>out u' bp'. UltimateLogger_log u bp nanotime level msg = Inr (out, u', bp') \<and>
         unat (out ! 22) = min (length msg) 200 \<and> drop 23 out = take 200 msg) \<and>
   (length msg < 65536 \<longrightarrow>
      (\<exists>out bp'. Logger_log bp nanotime level msg = Inr (out, bp') \<and>
         uint (le_word (take 2 (drop 14 out)) :: 16 word) = int (length msg) \<and>
         drop 16 out = msg))"
  using structured_on_wire [of fs l bp nanotime level msg]
    ultimate_on_wire [of u bp nanotime level msg] basic_on_wire [of msg bp nanotime level]
  by blast

theorem message_bytes_on_wire_witness:
  "list_all field_ok [Int_field [0x6b] 5] \<and> length [0x68, 0x69 :: byte] < 65536 \<and>
   (\<exists>out l' bp'. logFields \<lparr>sequence = 0\<rparr> NewBufferPool 7 1 [0x68, 0x69] [Int_field [0x6b] 5] =
        Inr (out, l', bp') \<and>
      unat (out ! 22) = 2 \<and> take (unat (out ! 22)) (drop 23 out) = [0x68, 0x69]) \<and>
   (\<exists>out u' bp'. UltimateLogger_log \<lparr>ul_sequence = 0\<rparr> NewBufferPool 7 1 [0x68, 0x69] =
        Inr (out, u', bp') \<and>
      unat (out ! 22) = 2 \<and> drop 23 out = [0x68, 0x69]) \<and>
   (\<exists>out bp'. Logger_log NewBufferPool 7 1 [0x68, 0x69] = Inr (out, bp') \<and>
      uint (le_word (take 2 (drop 14 out)) :: 16 word) = 2 \<and> drop 16 out = [0x68, 0x69])"
proof -
  have ok: "list_all field_ok [Int_field [0x6b] 5]"
    by (simp add: field_ok_def Int_field_def)
  show ?thesis
    using message_bytes_on_wire [of "[Int_field [0x6b] 5]" "\<lparr>sequence = 0\<rparr>" NewBufferPool 7 1
        "[0x68, 0x69]" "\<lparr>ul_sequence = 0\<rparr>"] ok
    by (simp add: numeral_2_eq_2)
qed

text \<open>
  Claim C5 as stated fails: the basic logger puts all 256 bytes of a message of 256 bytes
  on the wire (16 bytes of header and 256 of message), and the ultimate logger puts 200
  bytes of a message of 201 bytes on the wire (23 bytes of header and length, 200 of
  message), although 201 is below 255.
\<close>

theorem Logger_log_writes_256_bytes:
  "map_sum id (length \<circ> fst) (Logger_log NewBufferPool 0 1 (replicate 256 0x61)) = Inr 272 \<and>
   map_sum id (length \<circ> fst)
     (UltimateLogger_log \<lparr>ul_sequence = 0\<rparr> NewBufferPool 0 1 (replicate 201 0x61)) = Inr 223"
proof -
  obtain bp' where
    "Logger_log NewBufferPool 0 1 (replicate 256 0x61) =
       Inr (basic_header 1 0 (word_of_int (int (length (replicate 256 (0x61 :: byte))))) @
         replicate 256 0x61, bp')"
    using Logger_log_spec by blast
  then have a: "map_sum id (length \<circ> fst) (Logger_log NewBufferPool 0 1 (replicate 256 0x61)) =
      Inr 272"
    by (simp add: length_basic_header)
  obtain bp'' where
    "UltimateLogger_log \<lparr>ul_sequence = 0\<rparr> NewBufferPool 0 1 (replicate 201 0x61) =
       Inr (wire_ultimate 1 (ul_sequence \<lparr>ul_sequence = 0\<rparr> + 1) 0 (replicate 201 0x61),
         \<lparr>ul_sequence = 0\<rparr>\<lparr>ul_sequence := ul_sequence \<lparr>ul_sequence = 0\<rparr> + 1\<rparr>, bp'')"
    using UltimateLogger_log_spec by blast
  then have b: "map_sum id (length \<circ> fst)
     (UltimateLogger_log \<lparr>ul_sequence = 0\<rparr> NewBufferPool 0 1 (replicate 201 0x61)) = Inr 223"
    by (simp add: wire_ultimate_def)
  from a b show ?thesis by simp
qed


section \<open>Round trip: proofs\<close>

lemma bind_f_if: "bind_f (if c then a else b) g = (if c then bind_f a g else bind_f b g)"
  by simp

lemma bind_f_assoc: "bind_f (bind_f m f) g = bind_f m (\<lambda>x. bind_f (f x) g)"
  by (cases m) simp_all

lemma decodeFieldValueBuf_parse:
  "decodeFieldValueBuf ext buf b pos ft =
     bind_f (parse_value b pos ft) (\<lambda>(v, pos'). Inr (render_value ext buf v, pos'))"
  unfolding decodeFieldValueBuf_def parse_value_def
  by (simp add: bind_f_if bind_f_assoc Let_def render_value_def escapeStringOptimized_ok
      cong: if_cong)

lemma Write_fields_parse:
  "Write_fields ext color level b n i buf pos =
     bind_f (parse_fields b n pos) (\<lambda>(fl, stopped). Inr (render_fields ext color level i buf fl stopped))"
proof (induction n arbitrary: i buf pos color)
  case 0
  show ?case by simp
next
  case (Suc n)
  show ?case
    by (auto simp: Let_def decodeFieldValueBuf_parse Suc.IH bind_f_def
        split: sum.splits prod.splits)
qed

lemma length_spaces: "length spaces = 40"
  by (simp add: spaces_def)

lemma spaces_take: "n \<le> 40 \<Longrightarrow> take n spaces = replicate n 0x20"
  by (simp add: spaces_def)

lemma Write_padding_eq:
  assumes "0 \<le> msgLen" "0 < msgStart"
  shows "Write_padding b (msgStart + msgLen) msgStart
           (if msgLen > 0 then msgStart + msgLen else 0) buf =
         (if msgStart + msgLen < int (length b) \<and> 0 < msgLen \<and> msgLen < 40
          then buf @ replicate (nat (40 - msgLen)) 0x20 else buf)"
  using assms
  by (auto simp: Write_padding_def termMsgJust_def Let_def spaces_take length_spaces)

lemma Decode_message:
  assumes "0 \<le> msgLen" "0 < msgStart" "msgStart + msgLen \<le> int (length b)"
  shows "(if (if msgLen > 0 then msgStart + msgLen else 0) > msgStart
          then slice b msgStart (if msgLen > 0 then msgStart + msgLen else 0) else Inr []) =
         Inr (take (nat msgLen) (drop (nat msgStart) b))"
  using assms by (auto simp: slice_ok)

lemma Write_line_Decode:
  "Write_line ext color b =
     (case Decode b of
        Inl e \<Rightarrow> Inl e
      | Inr (Inl err) \<Rightarrow> Inr (Inl err)
      | Inr (Inr d) \<Rightarrow> Inr (Inr (render_line ext color d)))"
proof (cases "Write_header b")
  case (Inl e)
  then show ?thesis by (simp add: Write_line_def Decode_def)
next
  case (Inr r)
  show ?thesis
  proof (cases r)
    case (Inl err)
    with Inr show ?thesis by (simp add: Write_line_def Decode_def)
  next
    case (Inr t)
    obtain level timestamp msgLen msgStart where t: "t = (level, timestamp, msgLen, msgStart)"
      by (cases t) auto
    have h: "Write_header b = Inr (Inr (level, timestamp, msgLen, msgStart))"
      using \<open>Write_header b = Inr r\<close> Inr t by simp
    from Write_header_bounds [OF h]
    have b0: "0 \<le> msgLen" and b1: "0 < msgStart" and b2: "msgStart + msgLen \<le> int (length b)"
      by simp_all
    define m where "m = take (nat msgLen) (drop (nat msgStart) b)"
    have lm: "length m = nat msgLen" using b0 b1 b2 by (simp add: m_def)
    have wm: "\<And>buf. Write_message b msgStart (if msgLen > 0 then msgStart + msgLen else 0) buf =
        Inr (buf @ m)"
      unfolding m_def by (rule Write_message_ok [OF b0 b1 b2])
    have dm: "(if (if msgLen > 0 then msgStart + msgLen else 0) > msgStart
          then slice b msgStart (if msgLen > 0 then msgStart + msgLen else 0) else Inr []) =
         Inr m"
      unfolding m_def by (rule Decode_message [OF b0 b1 b2])
    have pad: "\<And>buf. Write_padding b (msgStart + msgLen) msgStart
           (if msgLen > 0 then msgStart + msgLen else 0) buf =
         (if msgStart + msgLen < int (length b) \<and> 0 < length m \<and> length m < 40
          then buf @ replicate (40 - length m) 0x20 else buf)"
      using b0 by (subst Write_padding_eq [OF b0 b1]) (auto simp: lm nat_diff_distrib)
    define blk where "blk = (if msgStart + msgLen < int (length b)
                          then bind_f (byte_at b (msgStart + msgLen)) (\<lambda>fieldCount.
                                 parse_fields b (unat fieldCount) (msgStart + msgLen + 1))
                          else Inr ([], False))"
    have wb: "\<And>buf. Write_field_block ext color level b (msgStart + msgLen) buf =
        bind_f blk (\<lambda>(fl, stopped). Inr (render_fields ext color level 0 buf fl stopped))"
      by (simp add: Write_field_block_def blk_def Write_fields_parse bind_f_assoc)
    have W: "Write_line ext color b =
        bind_f blk (\<lambda>(fl, stopped).
          Inr (Inr (render_line ext color
            \<lparr>d_level = level, d_timestamp = timestamp, d_message = m,
              d_block = (msgStart + msgLen < int (length b)), d_fields = fl,
              d_stopped = stopped\<rparr>)))"
      unfolding Write_line_def h
      by (simp add: Let_def wm pad wb bind_f_assoc render_line_def case_prod_unfold bind_f_if
          cong: if_cong)
    have D: "Decode b =
        bind_f blk (\<lambda>(fl, stopped).
          Inr (Inr \<lparr>d_level = level, d_timestamp = timestamp, d_message = m,
              d_block = (msgStart + msgLen < int (length b)), d_fields = fl,
              d_stopped = stopped\<rparr>))"
      unfolding Decode_def h
      by (simp only: sum.case prod.case Let_def dm bind_f_Inr blk_def [symmetric])
    show ?thesis
      unfolding W D by (cases blk) (simp_all add: case_prod_unfold)
  qed
qed

lemma length_record_bytes:
  "length (record_bytes level seq nanotime msg fs) = record_size msg fs"
  by (simp add: record_bytes_def record_size_def length_concat comp_def)

lemma be_bytes_2: "be_bytes 2 (word_of_int n :: 16 word) = [word_of_int (drop_bit 8 n), word_of_int n]"
proof -
  have a: "(ucast (drop_bit 8 (word_of_int n :: 16 word)) :: byte) = word_of_int (drop_bit 8 n)"
    by (rule bit_word_eqI) (auto simp: bit_simps)
  have b: "(ucast (word_of_int n :: 16 word) :: byte) = word_of_int n"
    by (rule bit_word_eqI) (auto simp: bit_simps)
  have "le_bytes 2 (word_of_int n :: 16 word) =
      [ucast (word_of_int n :: 16 word), ucast (drop_bit 8 (word_of_int n :: 16 word))]"
    by (simp add: le_bytes_def numeral_2_eq_2)
  then show ?thesis by (simp add: be_bytes_def a b)
qed

lemma length_be_bytes_n: "length (be_bytes n w) = n"
  by (simp add: be_bytes_def length_le_bytes)

lemma sint_of_nat_small:
  assumes "n \<le> 65535"
  shows "sint (of_nat n :: 64 word) = int n"
proof -
  have u: "uint (of_nat n :: 64 word) = int n"
    using assms by (simp add: unsigned_of_nat take_bit_nat_eq_self)
  have "sint (of_nat n :: 64 word) = signed_take_bit 63 (uint (of_nat n :: 64 word))"
    by (simp add: sint_uint)
  also have "\<dots> = int n"
    unfolding u using assms by (intro signed_take_bit_int_eq_self) simp_all
  finally show ?thesis .
qed

lemma field_fits_ok: "field_fits f \<Longrightarrow> field_ok f"
  by (auto simp: field_fits_def field_ok_def sint_of_nat_small split: option.splits)

lemma prefixed_exact:
  assumes "n \<le> 65535" "int n \<le> room" "n = length xs"
  shows "(let m = min (min (int n) room) 65535
          in [word_of_int (drop_bit 8 m), word_of_int m] @ take (nat m) xs) =
         be_bytes 2 (of_nat n :: 16 word) @ xs"
proof -
  have m: "min (min (int n) room) 65535 = int n" using assms by simp
  have "be_bytes 2 (of_nat n :: 16 word) = be_bytes 2 (word_of_int (int n) :: 16 word)" by simp
  also have "\<dots> = [word_of_int (drop_bit 8 (int n)), word_of_int (int n)]"
    by (rule be_bytes_2)
  finally have b: "be_bytes 2 (of_nat n :: 16 word) =
      [word_of_int (drop_bit 8 (int n)), word_of_int (int n)]" .
  show ?thesis unfolding Let_def m b using assms(3) by simp
qed

lemma length_value_bytes_fixed:
  "Type f \<noteq> FieldTypeString \<Longrightarrow> Type f \<noteq> FieldTypeBytes \<Longrightarrow>
     length (value_bytes f) = (if Type f = FieldTypeFloat32 then 4 else 8)"
  by (simp add: value_bytes_def length_be_bytes_n)

lemma enc_value_exact:
  assumes "field_fits f" "0 \<le> pos" "pos + int (length (value_bytes f)) \<le> L"
  shows "enc_value L pos f = value_bytes f"
proof -
  consider (i8) "Type f = FieldTypeInt \<or> Type f = FieldTypeUint \<or> Type f = FieldTypeBool \<or>
      Type f = FieldTypeFloat64"
    | (f4) "Type f = FieldTypeFloat32" | (s) "Type f = FieldTypeString"
    | (b) "Type f = FieldTypeBytes"
    using assms(1) by (auto simp: field_fits_def)
  then show ?thesis
  proof cases
    case i8
    then have t: "Type f \<noteq> FieldTypeFloat32" "Type f \<noteq> FieldTypeString"
        "Type f \<noteq> FieldTypeBytes"
      by (auto simp: FieldType_defs)
    have "length (value_bytes f) = 8" using t by (simp add: length_value_bytes_fixed)
    then have "\<not> L - pos < 8" using assms(3) by simp
    then show ?thesis using i8 t by (simp add: enc_value_def value_bytes_def)
  next
    case f4
    then have t: "Type f \<noteq> FieldTypeInt" "Type f \<noteq> FieldTypeUint" "Type f \<noteq> FieldTypeBool"
        "Type f \<noteq> FieldTypeFloat64" "Type f \<noteq> FieldTypeString" "Type f \<noteq> FieldTypeBytes"
      by (auto simp: FieldType_defs)
    have "length (value_bytes f) = 4" using f4 t by (simp add: length_value_bytes_fixed)
    then have "\<not> L - pos < 4" using assms(3) by simp
    then show ?thesis using f4 t by (simp add: enc_value_def value_bytes_def)
  next
    case s
    then have t: "Type f \<noteq> FieldTypeInt" "Type f \<noteq> FieldTypeUint" "Type f \<noteq> FieldTypeBool"
        "Type f \<noteq> FieldTypeFloat64" "Type f \<noteq> FieldTypeFloat32" "Type f \<noteq> FieldTypeBytes"
      by (auto simp: FieldType_defs)
    have vb: "value_bytes f = be_bytes 2 (of_nat (length (str f)) :: 16 word) @ str f"
      using s t by (simp add: value_bytes_def)
    have n: "length (str f) \<le> 65535" using assms(1) s by (simp add: field_fits_def)
    have r: "int (length (str f)) \<le> L - pos - 2" "\<not> L - pos < 2"
      using assms(3) by (simp_all add: vb length_be_bytes_n)
    have "enc_value L pos f =
        (let m = min (min (int (length (str f))) (L - pos - 2)) 65535
         in [word_of_int (drop_bit 8 m), word_of_int m] @ take (nat m) (str f))"
      using s t r(2) by (simp add: enc_value_def)
    also have "\<dots> = be_bytes 2 (of_nat (length (str f)) :: 16 word) @ str f"
      using n r(1) by (intro prefixed_exact) simp_all
    finally show ?thesis by (simp add: vb)
  next
    case b
    then have t: "Type f \<noteq> FieldTypeInt" "Type f \<noteq> FieldTypeUint" "Type f \<noteq> FieldTypeBool"
        "Type f \<noteq> FieldTypeFloat64" "Type f \<noteq> FieldTypeFloat32" "Type f \<noteq> FieldTypeString"
      by (auto simp: FieldType_defs)
    obtain mem where mem: "ptr f = Some mem" "num f = of_nat (length mem)" "length mem \<le> 65535"
      using assms(1) b by (auto simp: field_fits_def split: option.splits)
    have vb: "value_bytes f = be_bytes 2 (of_nat (length mem) :: 16 word) @ mem"
      using b t mem by (simp add: value_bytes_def)
    have si: "sint (num f) = int (length mem)"
      unfolding mem(2) by (rule sint_of_nat_small [OF mem(3)])
    have r: "int (length mem) \<le> L - pos - 2" "\<not> L - pos < 2"
      using assms(3) by (simp_all add: vb length_be_bytes_n)
    have "enc_value L pos f =
        (let m = min (min (int (length mem)) (L - pos - 2)) 65535
         in [word_of_int (drop_bit 8 m), word_of_int m] @ take (nat m) mem)"
      using b t r(2) by (simp add: enc_value_def mem(1) si)
    also have "\<dots> = be_bytes 2 (of_nat (length mem) :: 16 word) @ mem"
      using mem(3) r(1) by (intro prefixed_exact) simp_all
    finally show ?thesis by (simp add: vb)
  qed
qed

lemma enc_field_exact:
  assumes "field_fits f" "int (length (field_bytes f)) \<le> L" "10 \<le> L"
  shows "enc_field L f = field_bytes f"
proof -
  have k: "length (Key f) \<le> 255" using assms(1) by (simp add: field_fits_def)
  have l: "int (length (Key f)) + 2 + int (length (value_bytes f)) \<le> L"
    using assms(2) by (simp add: field_bytes_def)
  then have kl: "min (min (int (length (Key f))) 255) (L - 2) = int (length (Key f))"
    using k by simp
  have v: "enc_value L (2 + int (length (Key f))) f = value_bytes f"
    using assms(1) l by (intro enc_value_exact) simp_all
  show ?thesis
    using assms(3) by (simp add: enc_field_def Let_def kl v field_bytes_def)
qed

lemma length_field_bytes_pos: "0 < length (field_bytes f)"
  by (simp add: field_bytes_def)

lemma enc_fields_exact:
  assumes "list_all field_fits fs" "0 \<le> pos"
    "pos + int (length (concat (map field_bytes fs))) + 64 \<le> L"
  shows "enc_fields L pos fs = concat (map field_bytes fs)"
  using assms
proof (induction fs arbitrary: pos)
  case Nil
  show ?case by simp
next
  case (Cons f fs)
  have "0 < int (length (field_bytes f))" using length_field_bytes_pos [of f] by linarith
  moreover have "pos + (int (length (field_bytes f)) +
      int (length (concat (map field_bytes fs)))) + 64 \<le> L"
    using Cons.prems(3) by simp
  ultimately have g: "pos < L - 64" by linarith
  have e: "enc_field (L - pos) f = field_bytes f"
    using Cons.prems by (intro enc_field_exact) simp_all
  have ih: "enc_fields L (pos + int (length (field_bytes f))) fs = concat (map field_bytes fs)"
    using Cons.prems by (intro Cons.IH) simp_all
  show ?case using g by (simp add: e ih)
qed

lemma wire_structured_exact:
  assumes "length msg \<le> 255" "length fs \<le> 255" "list_all field_fits fs"
    "int (record_size msg fs) + 64 \<le> L"
  shows "wire_structured L level seq nanotime msg fs = record_bytes level seq nanotime msg fs"
proof -
  have s: "int (record_size msg fs) =
      24 + int (length msg) + int (length (concat (map field_bytes fs)))"
    by (simp add: record_size_def length_concat comp_def)
  have e: "enc_fields L (24 + int (length msg)) fs = concat (map field_bytes fs)"
    using assms(3,4) s by (intro enc_fields_exact) simp_all
  show ?thesis
    using assms(1,2) by (simp add: wire_structured_def record_bytes_def e min_def)
qed

lemma list_all_field_fits_ok: "list_all field_fits fs \<Longrightarrow> list_all field_ok fs"
  by (induction fs) (simp_all add: field_fits_ok)

lemma Encode_exact:
  assumes "length msg \<le> 255" "length fs \<le> 255" "list_all field_fits fs"
    "record_size msg fs + 64 \<le> length buf"
  shows "Encode l nanotime buf level msg fs =
     Inr (record_bytes level (sequence l + 1) nanotime msg fs)"
proof -
  let ?w = "record_bytes level (sequence l + 1) nanotime msg fs"
  have rs: "24 + length msg \<le> record_size msg fs" by (simp add: record_size_def)
  have room: "24 + min (int (length msg)) 255 \<le> int (length buf)"
    using assms(4) rs by simp
  have ex: "wire_structured (int (length buf)) level (sequence l + 1) nanotime msg fs = ?w"
    using assms by (intro wire_structured_exact) simp_all
  have f: "formatStructuredMessage l nanotime buf level msg fs =
      Inr (int (length ?w), overwrite buf 0 ?w, l\<lparr>sequence := sequence l + 1\<rparr>)"
    using formatStructuredMessage_room [OF list_all_field_fits_ok [OF assms(3)] room,
        of l nanotime level]
    by (simp only: ex)
  have lw: "length ?w \<le> length buf"
    using assms(4) by (simp add: length_record_bytes)
  have sl: "slice (overwrite buf 0 ?w) 0 (int (length ?w)) = Inr ?w"
    using lw by (subst slice_ok) (simp_all add: overwrite_0 length_overwrite_0)
  show ?thesis
    unfolding Encode_def f by (simp add: sl)
qed

lemma byte_at_mid: "byte_at (pre @ x # rest) (int (length pre)) = Inr x"
  by (simp add: byte_at_def)

lemma bytes_at_mid: "bytes_at (pre @ xs @ rest) (int (length pre)) (length xs) = Inr xs"
  by (simp add: bytes_at_def)

lemma slice_mid:
  "slice (pre @ xs @ rest) (int (length pre)) (int (length pre) + int (length xs)) = Inr xs"
  by (simp add: slice_def)

lemma be_word_be_bytes_4: "be_word (be_bytes 4 w) = (w :: 32 word)"
  by (simp add: be_word_be_bytes take_bit_word_eq_self)

lemma be_word_be_bytes_2: "be_word (be_bytes 2 w) = (w :: 16 word)"
  by (simp add: be_word_be_bytes take_bit_word_eq_self)

lemma uint_of_nat_16: "n \<le> 65535 \<Longrightarrow> uint (of_nat n :: 16 word) = int n"
  by (simp add: unsigned_of_nat take_bit_nat_eq_self)

lemma uint_of_nat_8: "n \<le> 255 \<Longrightarrow> uint (of_nat n :: byte) = int n"
  by (simp add: unsigned_of_nat take_bit_nat_eq_self)

lemma unat_of_nat_8: "n \<le> 255 \<Longrightarrow> unat (of_nat n :: byte) = n"
  by (simp add: unsigned_of_nat take_bit_nat_eq_self)

lemma parse_value_fixed8:
  assumes "length vb = 8"
  shows "bytes_at (pre @ vb @ rest) (int (length pre)) 8 = Inr vb"
    and "\<not> int (length (pre @ vb @ rest)) - int (length pre) < 8"
  using bytes_at_mid [of pre vb rest] assms by simp_all

lemma parse_value_exact8:
  assumes "Type f = FieldTypeInt \<or> Type f = FieldTypeUint \<or> Type f = FieldTypeBool \<or>
      Type f = FieldTypeFloat64"
  shows "parse_value (pre @ be_bytes 8 (num f) @ rest) (int (length pre)) (Type f) =
     Inr (value_of f, int (length pre) + 8)"
proof -
  let ?b = "pre @ be_bytes 8 (num f) @ rest"
  have l: "length (be_bytes 8 (num f)) = 8" by (simp add: length_be_bytes_n)
  note p = parse_value_fixed8 [OF l, of pre rest]
  from assms show ?thesis
  proof (elim disjE)
    assume t: "Type f = FieldTypeInt"
    show ?thesis
      unfolding parse_value_def t using p
      by (simp add: be_word_be_bytes_8 value_of_def t)
  next
    assume t: "Type f = FieldTypeUint"
    have d: "FieldTypeUint \<noteq> FieldTypeInt" "FieldTypeUint \<noteq> FieldTypeBool"
      by (simp_all add: FieldType_defs)
    show ?thesis
      unfolding parse_value_def t using p d
      by (simp add: be_word_be_bytes_8 value_of_def t)
  next
    assume t: "Type f = FieldTypeBool"
    have d: "FieldTypeBool \<noteq> FieldTypeInt" "FieldTypeBool \<noteq> FieldTypeUint"
      "FieldTypeBool \<noteq> FieldTypeFloat32" "FieldTypeBool \<noteq> FieldTypeFloat64"
      "FieldTypeBool \<noteq> FieldTypeString"
      by (simp_all add: FieldType_defs)
    show ?thesis
      unfolding parse_value_def t using p d
      by (simp add: be_word_be_bytes_8 value_of_def t)
  next
    assume t: "Type f = FieldTypeFloat64"
    have d: "FieldTypeFloat64 \<noteq> FieldTypeInt" "FieldTypeFloat64 \<noteq> FieldTypeUint"
      "FieldTypeFloat64 \<noteq> FieldTypeFloat32" "FieldTypeFloat64 \<noteq> FieldTypeBool"
      by (simp_all add: FieldType_defs)
    show ?thesis
      unfolding parse_value_def t using p d
      by (simp add: be_word_be_bytes_8 value_of_def t)
  qed
qed

lemma parse_value_exact4:
  assumes "Type f = FieldTypeFloat32"
  shows "parse_value (pre @ be_bytes 4 (ucast (num f) :: 32 word) @ rest) (int (length pre))
      (Type f) = Inr (value_of f, int (length pre) + 4)"
proof -
  have l: "length (be_bytes 4 (ucast (num f) :: 32 word)) = 4" by (simp add: length_be_bytes_n)
  have p: "bytes_at (pre @ be_bytes 4 (ucast (num f) :: 32 word) @ rest) (int (length pre)) 4 =
      Inr (be_bytes 4 (ucast (num f) :: 32 word))"
    using bytes_at_mid [of pre "be_bytes 4 (ucast (num f) :: 32 word)" rest] l by simp
  have d: "FieldTypeFloat32 \<noteq> FieldTypeInt" "FieldTypeFloat32 \<noteq> FieldTypeUint"
      "FieldTypeFloat32 \<noteq> FieldTypeBool"
    by (simp_all add: FieldType_defs)
  show ?thesis
    unfolding parse_value_def assms using p d l
    by (simp add: be_word_be_bytes_4 value_of_def assms)
qed

lemma parse_value_prefixed:
  assumes "length xs \<le> 65535"
  shows "bind_f (bytes_at (pre @ (be_bytes 2 (of_nat (length xs) :: 16 word) @ xs) @ rest)
            (int (length pre)) 2) (\<lambda>lb.
           let n = uint (be_word lb :: 16 word) in
           if int (length (pre @ (be_bytes 2 (of_nat (length xs) :: 16 word) @ xs) @ rest)) -
                int (length pre) < 2 + n
           then Inr (DMissing, int (length pre) + 2 + n)
           else bind_f (slice (pre @ (be_bytes 2 (of_nat (length xs) :: 16 word) @ xs) @ rest)
                  (int (length pre) + 2) (int (length pre) + 2 + n)) (\<lambda>s.
                  Inr (k s, int (length pre) + 2 + n))) =
         Inr (k xs, int (length pre) + 2 + int (length xs))"
proof -
  let ?p = "be_bytes 2 (of_nat (length xs) :: 16 word)"
  let ?b = "pre @ (?p @ xs) @ rest"
  have l: "length ?p = 2" by (simp add: length_be_bytes_n)
  have b1: "bytes_at ?b (int (length pre)) 2 = Inr ?p"
    using bytes_at_mid [of pre ?p "xs @ rest"] l by simp
  have n: "uint (be_word ?p :: 16 word) = int (length xs)"
    by (simp add: be_word_be_bytes_2 uint_of_nat_16 assms)
  have s: "slice ?b (int (length pre) + 2) (int (length pre) + 2 + int (length xs)) = Inr xs"
    using slice_mid [of "pre @ ?p" xs rest] l by (simp add: ac_simps)
  have g: "\<not> int (length ?b) - int (length pre) < 2 + int (length xs)"
    using l by simp
  show ?thesis
    by (simp only: b1 bind_f_Inr Let_def n g if_False s)
qed

lemma parse_value_exact:
  assumes "field_fits f"
  shows "parse_value (pre @ value_bytes f @ rest) (int (length pre)) (Type f) =
     Inr (value_of f, int (length pre) + int (length (value_bytes f)))"
proof -
  consider (i8) "Type f = FieldTypeInt \<or> Type f = FieldTypeUint \<or> Type f = FieldTypeBool \<or>
      Type f = FieldTypeFloat64"
    | (f4) "Type f = FieldTypeFloat32" | (s) "Type f = FieldTypeString"
    | (b) "Type f = FieldTypeBytes"
    using assms(1) by (auto simp: field_fits_def)
  then show ?thesis
  proof cases
    case i8
    then have t: "Type f \<noteq> FieldTypeFloat32" "Type f \<noteq> FieldTypeString"
        "Type f \<noteq> FieldTypeBytes"
      by (auto simp: FieldType_defs)
    have vb: "value_bytes f = be_bytes 8 (num f)" using t by (simp add: value_bytes_def)
    show ?thesis
      unfolding vb using parse_value_exact8 [OF i8, of pre rest]
      by (simp add: length_be_bytes_n)
  next
    case f4
    have vb: "value_bytes f = be_bytes 4 (ucast (num f) :: 32 word)"
      using f4 by (simp add: value_bytes_def)
    show ?thesis
      unfolding vb using parse_value_exact4 [OF f4, of pre rest]
      by (simp add: length_be_bytes_n)
  next
    case s
    have d: "FieldTypeString \<noteq> FieldTypeInt" "FieldTypeString \<noteq> FieldTypeUint"
      "FieldTypeString \<noteq> FieldTypeBool" "FieldTypeString \<noteq> FieldTypeFloat32"
      "FieldTypeString \<noteq> FieldTypeFloat64"
      by (simp_all add: FieldType_defs)
    have vb: "value_bytes f = be_bytes 2 (of_nat (length (str f)) :: 16 word) @ str f"
      using s d by (simp add: value_bytes_def)
    have n: "length (str f) \<le> 65535" using assms s by (simp add: field_fits_def)
    have g: "\<not> int (length (pre @ (be_bytes 2 (of_nat (length (str f)) :: 16 word) @ str f) @ rest)) -
        int (length pre) < 2"
      by (simp add: length_be_bytes_n)
    have v: "value_of f = DString (str f)" using s d by (simp add: value_of_def)
    show ?thesis
      unfolding vb parse_value_def s v
      by (simp only: d if_False if_True g parse_value_prefixed [OF n, of pre rest DString])
        (simp add: length_be_bytes_n)
  next
    case b
    have d: "FieldTypeBytes \<noteq> FieldTypeInt" "FieldTypeBytes \<noteq> FieldTypeUint"
      "FieldTypeBytes \<noteq> FieldTypeBool" "FieldTypeBytes \<noteq> FieldTypeFloat32"
      "FieldTypeBytes \<noteq> FieldTypeFloat64" "FieldTypeBytes \<noteq> FieldTypeString"
      by (simp_all add: FieldType_defs)
    obtain mem where mem: "ptr f = Some mem" "length mem \<le> 65535"
      using assms b by (auto simp: field_fits_def split: option.splits)
    have vb: "value_bytes f = be_bytes 2 (of_nat (length mem) :: 16 word) @ mem"
      using b d mem by (simp add: value_bytes_def)
    have g: "\<not> int (length (pre @ (be_bytes 2 (of_nat (length mem) :: 16 word) @ mem) @ rest)) -
        int (length pre) < 2"
      by (simp add: length_be_bytes_n)
    have v: "value_of f = DBytes mem" using b d mem by (simp add: value_of_def)
    show ?thesis
      unfolding vb parse_value_def b v
      by (simp only: d if_False if_True g parse_value_prefixed [OF mem(2), of pre rest DBytes]
          simp_thms)
        (simp add: length_be_bytes_n)
  qed
qed

lemma parse_fields_exact:
  assumes "list_all field_fits fs"
  shows "parse_fields (pre @ concat (map field_bytes fs)) (length fs) (int (length pre)) =
     Inr (map (\<lambda>f. (Key f, Type f, value_of f)) fs, False)"
  using assms
proof (induction fs arbitrary: pre)
  case Nil
  show ?case by simp
next
  case (Cons f fs)
  define rest where "rest = concat (map field_bytes fs)"
  define kl where "kl = (of_nat (length (Key f)) :: byte)"
  define b where "b = pre @ field_bytes f @ rest"
  have fit: "field_fits f" "list_all field_fits fs" using Cons.prems by simp_all
  have k: "length (Key f) \<le> 255" using fit(1) by (simp add: field_fits_def)
  have u: "uint kl = int (length (Key f))" unfolding kl_def by (rule uint_of_nat_8 [OF k])
  have b1: "b = pre @ kl # (Key f @ Type f # value_bytes f @ rest)"
    by (simp add: b_def field_bytes_def kl_def)
  have b2: "b = (pre @ [kl]) @ Key f @ (Type f # value_bytes f @ rest)"
    by (simp add: b1)
  have b3: "b = (pre @ kl # Key f) @ Type f # (value_bytes f @ rest)"
    by (simp add: b1)
  have b4: "b = (pre @ kl # Key f @ [Type f]) @ value_bytes f @ rest"
    by (simp add: b1)
  have b5: "b = (pre @ field_bytes f) @ concat (map field_bytes fs)"
    by (simp add: b_def rest_def)
  have lb: "int (length b) = int (length pre) + 1 + int (length (Key f)) + 1 +
      int (length (value_bytes f)) + int (length rest)"
    by (simp add: b1)
  have g1: "int (length pre) < int (length b)" using lb by simp
  have r1: "byte_at b (int (length pre)) = Inr kl"
    unfolding b1 by (rule byte_at_mid)
  have g2: "\<not> int (length pre) + 1 + int (length (Key f)) > int (length b)" using lb by simp
  have g3: "\<not> int (length pre) + 1 + int (length (Key f)) \<ge> int (length b)" using lb by simp
  have r2: "byte_at b (int (length pre) + 1 + int (length (Key f))) = Inr (Type f)"
    using byte_at_mid [of "pre @ kl # Key f" "Type f" "value_bytes f @ rest"]
    by (simp add: b3 ac_simps)
  have r3: "slice b (int (length pre) + 1) (int (length pre) + 1 + int (length (Key f))) =
      Inr (Key f)"
    using slice_mid [of "pre @ [kl]" "Key f" "Type f # value_bytes f @ rest"]
    by (simp add: b2 ac_simps)
  have r4: "parse_value b (int (length pre) + 1 + int (length (Key f)) + 1) (Type f) =
      Inr (value_of f, int (length (pre @ field_bytes f)))"
    using parse_value_exact [OF fit(1), of "pre @ kl # Key f @ [Type f]" rest]
    by (simp add: b4 field_bytes_def ac_simps)
  have r5: "parse_fields b (length fs) (int (length (pre @ field_bytes f))) =
      Inr (map (\<lambda>f. (Key f, Type f, value_of f)) fs, False)"
    unfolding b5 by (rule Cons.IH [OF fit(2)])
  have "parse_fields b (Suc (length fs)) (int (length pre)) =
      Inr ((Key f, Type f, value_of f) # map (\<lambda>f. (Key f, Type f, value_of f)) fs, False)"
    by (simp only: parse_fields.simps g1 if_True r1 sum.case Let_def u g2 g3 if_False r2 r3 r4
        prod.case r5)
  then show ?case by (simp add: b_def rest_def)
qed

lemma le_bytes_2: "le_bytes 2 w = [ucast w, ucast (drop_bit 8 w)]"
  by (simp add: le_bytes_def numeral_2_eq_2)

lemma le_bytes_2_low: "le_bytes 2 (w :: 64 word) = le_bytes 2 (ucast w :: 16 word)"
proof -
  have a: "(ucast w :: byte) = ucast (ucast w :: 16 word)"
    by (rule bit_word_eqI) (auto simp: bit_simps)
  have b: "(ucast (drop_bit 8 w) :: byte) = ucast (drop_bit 8 (ucast w :: 16 word))"
    by (rule bit_word_eqI) (auto simp: bit_simps)
  show ?thesis unfolding le_bytes_2 using a b by simp
qed

lemma le_word_low16: "(le_word (le_bytes 2 (w :: 64 word)) :: 16 word) = ucast w"
  unfolding le_bytes_2_low by (simp add: le_word_le_bytes take_bit_word_eq_self)

lemma take_le_bytes: "k \<le> n \<Longrightarrow> take k (le_bytes n w) = le_bytes k w"
  by (simp add: le_bytes_def take_map min_def)

lemma le_word_le_bytes_4: "le_word (le_bytes 4 w) = (w :: 32 word)"
  by (simp add: le_word_le_bytes take_bit_word_eq_self)

lemma le_word_le_bytes_8: "le_word (le_bytes 8 w) = (w :: 64 word)"
  by (simp add: le_word_le_bytes take_bit_word_eq_self)

lemma record_bytes_parts:
  assumes b_def: "b = record_bytes level seq nanotime msg fs"
  shows "take 4 b = le_bytes 4 MagicHeader"
    and "take 2 (drop 14 b) = le_bytes 2 nanotime"
    and "take 8 (drop 14 b) = le_bytes 8 nanotime"
    and "b ! 5 = level"
    and "b ! 22 = of_nat (length msg)"
    and "take (length msg) (drop 23 b) = msg"
proof -
  have b: "b = le_bytes 4 MagicHeader @ Version # level # le_bytes 8 seq @ le_bytes 8 nanotime @
      of_nat (length msg) # msg @ of_nat (length fs) # concat (map field_bytes fs)"
    by (simp add: b_def record_bytes_def structured_header_def)
  show "take 4 b = le_bytes 4 MagicHeader" by (simp add: b length_le_bytes)
  have d: "drop 14 b = le_bytes 8 nanotime @
      of_nat (length msg) # msg @ of_nat (length fs) # concat (map field_bytes fs)"
    by (simp add: b length_le_bytes)
  show "take 2 (drop 14 b) = le_bytes 2 nanotime"
    unfolding d by (simp add: length_le_bytes take_le_bytes)
  show "take 8 (drop 14 b) = le_bytes 8 nanotime"
    unfolding d by (simp add: length_le_bytes)
  show "b ! 5 = level" by (simp add: b nth_append length_le_bytes)
  show "b ! 22 = of_nat (length msg)"
    by (simp add: b nth_append length_le_bytes nth_Cons')
  show "take (length msg) (drop 23 b) = msg" by (simp add: b length_le_bytes)
qed

lemma Write_header_exact:
  assumes "length msg \<le> 255"
    and "uint (ucast nanotime :: 16 word) = 0 \<or>
         int (record_size msg fs) < 16 + uint (ucast nanotime :: 16 word)"
  shows "Write_header (record_bytes level seq nanotime msg fs) =
     Inr (Inr (level, nanotime, int (length msg), 23))"
proof -
  let ?b = "record_bytes level seq nanotime msg fs"
  note p = record_bytes_parts [where b = "?b" and level = level and seq = seq and
      nanotime = nanotime and msg = msg and fs = fs, OF refl]
  have l: "int (length ?b) = int (record_size msg fs)" by (simp add: length_record_bytes)
  have s: "24 + int (length msg) \<le> int (record_size msg fs)" by (simp add: record_size_def)
  have u: "uint (of_nat (length msg) :: byte) = int (length msg)"
    by (rule uint_of_nat_8 [OF assms(1)])
  have n: "\<not> (0 < uint (ucast nanotime :: 16 word) \<and>
      16 + uint (ucast nanotime :: 16 word) \<le> int (record_size msg fs))"
    using assms(2) by auto
  show ?thesis
    unfolding Write_header_eq p l le_word_low16 le_word_le_bytes_4 le_word_le_bytes_8 u
    using s n by simp
qed

lemma Decode_exact:
  assumes "length msg \<le> 255" "length fs \<le> 255" "list_all field_fits fs"
    and "uint (ucast nanotime :: 16 word) = 0 \<or>
         int (record_size msg fs) < 16 + uint (ucast nanotime :: 16 word)"
  shows "Decode (record_bytes level seq nanotime msg fs) =
     Inr (Inr \<lparr>d_level = level, d_timestamp = nanotime, d_message = msg, d_block = True,
               d_fields = map (\<lambda>f. (Key f, Type f, value_of f)) fs, d_stopped = False\<rparr>)"
proof -
  define b where "b = record_bytes level seq nanotime msg fs"
  define pre where "pre = structured_header level seq nanotime @ of_nat (length msg) # msg"
  define n where "n = int (length msg)"
  have h: "Write_header b = Inr (Inr (level, nanotime, n, 23))"
    unfolding b_def n_def by (rule Write_header_exact [OF assms(1,4)])
  have lb: "int (length b) = int (record_size msg fs)"
    by (simp add: b_def length_record_bytes)
  have s: "24 + n \<le> int (record_size msg fs)" by (simp add: record_size_def n_def)
  have n0: "0 \<le> n" by (simp add: n_def)
  have m: "(if (if n > 0 then 23 + n else 0) > 23
          then slice b 23 (if n > 0 then 23 + n else 0) else Inr []) =
         Inr (take (nat n) (drop (nat 23) b))"
    using n0 lb s by (intro Decode_message) simp_all
  have m': "take (nat n) (drop (nat 23) b) = msg"
    using record_bytes_parts(6) [OF b_def] by (simp add: n_def)
  have lp: "int (length pre) = 23 + n" by (simp add: pre_def n_def)
  have b1: "b = pre @ of_nat (length fs) # concat (map field_bytes fs)"
    by (simp add: b_def record_bytes_def pre_def)
  have b2: "b = (pre @ [of_nat (length fs)]) @ concat (map field_bytes fs)"
    by (simp add: b1)
  have g: "23 + n < int (length b)" using lb s by simp
  have c: "byte_at b (23 + n) = Inr (of_nat (length fs))"
    using byte_at_mid [of pre "of_nat (length fs)" "concat (map field_bytes fs)"]
    by (simp add: b1 lp)
  have uc: "unat (of_nat (length fs) :: byte) = length fs"
    by (rule unat_of_nat_8 [OF assms(2)])
  have pf: "parse_fields b (length fs) (23 + n + 1) =
      Inr (map (\<lambda>f. (Key f, Type f, value_of f)) fs, False)"
    using parse_fields_exact [OF assms(3), of "pre @ [of_nat (length fs)]"]
    by (simp add: b2 lp ac_simps)
  have "Decode b =
     Inr (Inr \<lparr>d_level = level, d_timestamp = nanotime, d_message = msg, d_block = True,
               d_fields = map (\<lambda>f. (Key f, Type f, value_of f)) fs, d_stopped = False\<rparr>)"
    unfolding Decode_def h
    by (simp only: sum.case prod.case Let_def m m' bind_f_Inr g if_True c uc pf)
  then show ?thesis by (simp add: b_def)
qed

lemma value_of_constructors:
  "value_of (Int_field k v) = DInt v"
  "value_of (Uint_field k v) = DUint v"
  "value_of (Float32_field k x) = DFloat32 x"
  "value_of (Float64_field k v) = DFloat64 v"
  "value_of (String_field k s) = DString s"
  "value_of (Bool_field k t) = DBool t"
  "Bytes_field k d = Inr f \<Longrightarrow> value_of f = DBytes d"
proof -
  have u: "(ucast (ucast x :: 64 word) :: 32 word) = x"
    by (rule bit_word_eqI) (auto simp: bit_simps)
  show "value_of (Float32_field k x) = DFloat32 x"
    by (simp add: value_of_def Float32_field_def FieldType_defs u)
  show "Bytes_field k d = Inr f \<Longrightarrow> value_of f = DBytes d"
    by (auto simp: value_of_def Bytes_field_def FieldType_defs split: if_splits)
qed (simp_all add: value_of_def Int_field_def Uint_field_def Float64_field_def String_field_def
    Bool_field_def FieldType_defs)

lemma field_fits_constructors:
  assumes "length k \<le> 255"
  shows "field_fits (Int_field k v)"
    "field_fits (Uint_field k v)"
    "field_fits (Float32_field k x)"
    "field_fits (Float64_field k v)"
    "length s \<le> 65535 \<Longrightarrow> field_fits (String_field k s)"
    "field_fits (Bool_field k t)"
    "length d \<le> 65535 \<Longrightarrow> Bytes_field k d = Inr f \<Longrightarrow> field_fits f"
  using assms
  by (auto simp: field_fits_def Int_field_def Uint_field_def Float32_field_def Float64_field_def
      String_field_def Bool_field_def Bytes_field_def FieldType_defs split: if_splits)

text \<open>
  \<^bold>\<open>Claim C1\<close>, as amended. Take a message of at most 255 bytes and at most 255 fields, each
  as a constructor builds it, of one of the seven types, with a key of at most 255 bytes
  and a String or Bytes value of at most 65535 bytes. Let \<open>formatStructuredMessage\<close>
  encode them into a buffer at least 64 bytes longer than the record, and let the low 16
  bits of the timestamp be zero or exceed the length of the record minus 16, so that the
  decoder does not take the record for a basic one. Then the parser of
  \<open>TerminalWriter.Write\<close> recovers the level, the timestamp, the message and, in order, the
  key, the type and the value of every field; no field is marked missing and the field loop
  is not cut short; and the line \<open>Write\<close> prints is the rendering of exactly these data.
\<close>

theorem structured_round_trip:
  assumes "length msg \<le> 255" "length fs \<le> 255" "list_all field_fits fs"
    and "record_size msg fs + 64 \<le> length buf"
    and "uint (ucast nanotime :: 16 word) = 0 \<or>
         int (record_size msg fs) < 16 + uint (ucast nanotime :: 16 word)"
  shows "bind_f (Encode l nanotime buf level msg fs) Decode =
       Inr (Inr \<lparr>d_level = level, d_timestamp = nanotime, d_message = msg, d_block = True,
                 d_fields = map (\<lambda>f. (Key f, Type f, value_of f)) fs, d_stopped = False\<rparr>) \<and>
     bind_f (Encode l nanotime buf level msg fs) (Write_line ext color) =
       Inr (Inr (render_line ext color
          \<lparr>d_level = level, d_timestamp = nanotime, d_message = msg, d_block = True,
            d_fields = map (\<lambda>f. (Key f, Type f, value_of f)) fs, d_stopped = False\<rparr>))"
proof -
  have e: "Encode l nanotime buf level msg fs =
      Inr (record_bytes level (sequence l + 1) nanotime msg fs)"
    by (rule Encode_exact [OF assms(1-4)])
  have d: "Decode (record_bytes level (sequence l + 1) nanotime msg fs) =
      Inr (Inr \<lparr>d_level = level, d_timestamp = nanotime, d_message = msg, d_block = True,
                d_fields = map (\<lambda>f. (Key f, Type f, value_of f)) fs, d_stopped = False\<rparr>)"
    by (rule Decode_exact [OF assms(1-3,5)])
  show ?thesis
    unfolding e by (simp add: d Write_line_Decode)
qed

theorem structured_round_trip_witness:
  "bind_f (Encode \<lparr>sequence = 0\<rparr> 0 (replicate 512 0) 1 [0x68, 0x69]
      [Int_field [0x61] 5, Uint_field [0x62] 7, Float32_field [0x63] 1, Float64_field [0x64] 2,
       String_field [0x65] [0x68, 0x69], Bool_field [0x66] True,
       \<lparr>Key = [0x67], Type = FieldTypeBytes, num = 2, str = [], ptr = Some [1, 2]\<rparr>]) Decode =
   Inr (Inr \<lparr>d_level = 1, d_timestamp = 0, d_message = [0x68, 0x69], d_block = True,
     d_fields = [([0x61], FieldTypeInt, DInt 5), ([0x62], FieldTypeUint, DUint 7),
       ([0x63], FieldTypeFloat32, DFloat32 1), ([0x64], FieldTypeFloat64, DFloat64 2),
       ([0x65], FieldTypeString, DString [0x68, 0x69]), ([0x66], FieldTypeBool, DBool True),
       ([0x67], FieldTypeBytes, DBytes [1, 2])],
     d_stopped = False\<rparr>)"
proof -
  let ?fs = "[Int_field [0x61] 5, Uint_field [0x62] 7, Float32_field [0x63] 1,
       Float64_field [0x64] 2, String_field [0x65] [0x68, 0x69], Bool_field [0x66] True,
       \<lparr>Key = [0x67], Type = FieldTypeBytes, num = 2, str = [], ptr = Some [1, 2]\<rparr>]"
  have b: "Bytes_field [0x67] [1, 2] =
      Inr \<lparr>Key = [0x67], Type = FieldTypeBytes, num = 2, str = [], ptr = Some [1, 2]\<rparr>"
    by (simp add: Bytes_field_def)
  have f: "list_all field_fits ?fs"
    using field_fits_constructors(7) [OF _ _ b] by (simp add: field_fits_constructors)
  have v: "map (\<lambda>f. (Key f, Type f, value_of f)) ?fs =
      [([0x61], FieldTypeInt, DInt 5), ([0x62], FieldTypeUint, DUint 7),
       ([0x63], FieldTypeFloat32, DFloat32 1), ([0x64], FieldTypeFloat64, DFloat64 2),
       ([0x65], FieldTypeString, DString [0x68, 0x69]), ([0x66], FieldTypeBool, DBool True),
       ([0x67], FieldTypeBytes, DBytes [1, 2])]"
    using value_of_constructors(7) [OF b]
    by (simp add: value_of_constructors)
      (simp add: Int_field_def Uint_field_def Float32_field_def Float64_field_def
        String_field_def Bool_field_def)
  have s: "record_size [0x68, 0x69] ?fs + 64 \<le> length (replicate 512 (0 :: byte))"
    by (simp add: record_size_def field_bytes_def value_bytes_def length_be_bytes_n
        Int_field_def Uint_field_def Float32_field_def Float64_field_def
        String_field_def Bool_field_def FieldType_defs)
  have h: "length [0x68, 0x69 :: byte] \<le> 255" "length ?fs \<le> 255"
    "uint (ucast (0 :: 64 word) :: 16 word) = 0 \<or>
     int (record_size [0x68, 0x69] ?fs) < 16 + uint (ucast (0 :: 64 word) :: 16 word)"
    by simp_all
  show ?thesis
    using structured_round_trip [OF h(1,2) f s h(3), where l = "\<lparr>sequence = 0\<rparr>" and level = 1]
    unfolding v by (rule conjunct1)
qed

lemma le_bytes_4_literal:
  "le_bytes 4 w = [ucast w, ucast (drop_bit 8 w), ucast (drop_bit 16 w), ucast (drop_bit 24 w)]"
  by (simp add: le_bytes_def upt_rec)

lemma le_bytes_8_literal:
  "le_bytes 8 w = [ucast w, ucast (drop_bit 8 w), ucast (drop_bit 16 w), ucast (drop_bit 24 w),
     ucast (drop_bit 32 w), ucast (drop_bit 40 w), ucast (drop_bit 48 w), ucast (drop_bit 56 w)]"
  by (simp add: le_bytes_def upt_rec)

lemma example_record:
  "record_bytes 1 7 1 [0x68, 0x69] [] =
     [0x47, 0x4F, 0x4C, 0x5A, 1, 1, 7, 0, 0, 0, 0, 0, 0, 0, 1, 0, 0, 0, 0, 0, 0, 0, 2, 0x68, 0x69, 0]"
  by (simp add: record_bytes_def structured_header_def le_bytes_4_literal le_bytes_8_literal
      MagicHeader_def Version_def drop_bit_eq_div)

text \<open>
  Claim C1 as stated fails. The level Info, the sequence number 7, the timestamp 1, the
  message \<open>hi\<close> and no fields give a record of 26 bytes whose bytes 14 and 15, the low
  bytes of the timestamp, read as the length 1 of a basic record. The decoder takes the
  record for a basic one: it reports the sequence number as timestamp and the single byte
  at offset 16, a zero byte of the timestamp, as message.
\<close>

theorem structured_record_taken_for_basic:
  "bind_f (Encode \<lparr>sequence = 6\<rparr> 1 (replicate 512 0) 1 [0x68, 0x69] []) Decode =
     Inr (Inr \<lparr>d_level = 1, d_timestamp = 7, d_message = [0], d_block = True, d_fields = [],
               d_stopped = False\<rparr>)"
proof -
  have e: "Encode \<lparr>sequence = 6\<rparr> 1 (replicate 512 0) 1 [0x68, 0x69] [] =
      Inr (record_bytes 1 (sequence \<lparr>sequence = 6\<rparr> + 1) 1 [0x68, 0x69] [])"
    by (rule Encode_exact) (simp_all add: record_size_def)
  let ?b = "[0x47, 0x4F, 0x4C, 0x5A, 1, 1, 7, 0, 0, 0, 0, 0, 0, 0, 1, 0, 0, 0, 0, 0, 0, 0, 2,
      0x68, 0x69, 0] :: bytes"
  have h: "Write_header ?b = Inr (Inr (1, 7, 1, 16))"
    by (simp add: Write_header_eq le_word_def MagicHeader_def)
  have d: "Decode ?b =
      Inr (Inr \<lparr>d_level = 1, d_timestamp = 7, d_message = [0], d_block = True, d_fields = [],
               d_stopped = False\<rparr>)"
    unfolding Decode_def h by (simp add: slice_def byte_at_def)
  show ?thesis
    unfolding e by (simp add: example_record d)
qed


end
